theory Spec2Isabelle
  imports Complex_Main "HOL-Library.Multiset" "HOL-Library.Char_ord"
    "HOL-Library.List_Lexorder" "HOL-Library.Product_Lexorder" "HOL-Library.AList"
begin

section \<open>Catalog items\<close>

text \<open>
  A JavaScript number that reached the code through \<open>Number(v)\<close>: either a finite
  value, taken here as a real (IEEE rounding is not modelled), or one of NaN and the
  infinities, which every \<open>Number.isFinite\<close> test of the code treats alike.
\<close>

datatype jsnum = Fin real | NotFinite

text \<open>
  A movie object, restricted to the properties that ranking and merging read. A property
  that is \<open>null\<close> or \<open>undefined\<close> is \<open>None\<close>. The numeric properties hold
  \<open>Number(v)\<close> of the raw value, \<open>movie_id\<close> holds \<open>String(movie.id)\<close>, an array
  property is \<open>Some\<close> of its elements when \<open>Array.isArray\<close> holds, and
  \<open>criticScores\<close> records only whether the property is truthy. The record is
  extensible: the remaining properties of the object live in its extension part, which
  the spread \<open>{ ...movie, __priority }\<close> carries along unchanged.
\<close>

record movie =
  movie_id :: "string option"
  poster_path :: "string option"
  overview :: "string option"
  vote_average :: "jsnum option"
  score :: "jsnum option"
  vote_count :: "jsnum option"
  voteCount :: "jsnum option"
  release_date :: "string option"
  criticScores :: bool
  directors :: "string list option"
  topCast :: "string list option"
  genre_ids :: "int list option"
  priority :: "real option"

text \<open>An element of a movie array: \<open>None\<close> is a \<open>null\<close> or \<open>undefined\<close> slot.\<close>

type_synonym 'a entry = "'a movie_scheme option"

definition truthy_str :: "string option \<Rightarrow> bool" where
  "truthy_str s = (case s of None \<Rightarrow> False | Some t \<Rightarrow> t \<noteq> [])"

definition nonempty_array :: "'b list option \<Rightarrow> bool" where
  "nonempty_array a = (case a of None \<Rightarrow> False | Some xs \<Rightarrow> xs \<noteq> [])"

section \<open>Deduplication by id\<close>

definition scoreMovieForMerge :: "'a entry \<Rightarrow> nat" where
  "scoreMovieForMerge e =
     (case e of None \<Rightarrow> 0
      | Some m \<Rightarrow>
          (let s = 0;
               s = (if truthy_str (poster_path m) then s + 3 else s);
               s = (if truthy_str (overview m) then s + 2 else s);
               s = (if vote_average m \<noteq> None then s + 1 else s);
               s = (if vote_count m \<noteq> None then s + 1 else s);
               s = (if truthy_str (release_date m) then s + 1 else s);
               s = (if criticScores m then s + 1 else s);
               s = (if nonempty_array (directors m) then s + 1 else s);
               s = (if nonempty_array (topCast m) then s + 1 else s);
               s = (if nonempty_array (genre_ids m) then s + 1 else s)
           in s))"

text \<open>
  The key under which an entry is deduplicated: \<open>None\<close> for a missing entry and for an
  entry whose id is \<open>null\<close> or \<open>undefined\<close>.
\<close>

definition entry_key :: "'a entry \<Rightarrow> string option" where
  "entry_key e = (case e of None \<Rightarrow> None | Some m \<Rightarrow> movie_id m)"

text \<open>
  One iteration of the \<open>forEach\<close> of \<open>dedupeMoviesById\<close>. The state is the \<open>seen\<close> map
  (key to index and score) and the \<open>result\<close> array.
\<close>

definition dedupe_step ::
  "(string \<rightharpoonup> nat \<times> nat) \<times> 'a entry list \<Rightarrow> 'a entry \<Rightarrow>
   (string \<rightharpoonup> nat \<times> nat) \<times> 'a entry list" where
  "dedupe_step st e =
     (let seen = fst st; result = snd st in
      case entry_key e of
        None \<Rightarrow> (seen, result @ [e])
      | Some key \<Rightarrow>
          (let sc = scoreMovieForMerge e in
           case seen key of
             None \<Rightarrow> (seen(key \<mapsto> (length result, sc)), result @ [e])
           | Some (index, existing_score) \<Rightarrow>
               if sc > existing_score
               then (seen(key \<mapsto> (index, sc)), result[index := e])
               else (seen, result)))"

definition dedupeMoviesById :: "'a entry list \<Rightarrow> 'a entry list" where
  "dedupeMoviesById list =
     (if list = [] then [] else snd (foldl dedupe_step (Map.empty, []) list))"

text \<open>
  The completeness score as the specification words it: one point for each populated
  field. It is used only to compare the specification with \<open>scoreMovieForMerge\<close>.
\<close>

definition spec_completeness :: "'a entry \<Rightarrow> nat" where
  "spec_completeness e =
     (case e of None \<Rightarrow> 0
      | Some m \<Rightarrow>
          of_bool (truthy_str (poster_path m)) + of_bool (truthy_str (overview m)) +
          of_bool (vote_average m \<noteq> None) + of_bool (vote_count m \<noteq> None) +
          of_bool (truthy_str (release_date m)) + of_bool (criticScores m) +
          of_bool (nonempty_array (directors m)) + of_bool (nonempty_array (topCast m)) +
          of_bool (nonempty_array (genre_ids m)))"

text \<open>The whole loop of \<open>dedupeMoviesById\<close>, with its final \<open>seen\<close> map.\<close>

definition run_dedupe :: "'a entry list \<Rightarrow> (string \<rightharpoonup> nat \<times> nat) \<times> 'a entry list" where
  "run_dedupe l = foldl dedupe_step (Map.empty, []) l"

text \<open>
  Loop invariants. Every \<open>seen\<close> record points at the slot of \<open>result\<close> that holds its
  key and stores that slot's score; every keyed slot has its record; every keyed entry
  consumed so far is recorded with a score at least its own.
\<close>

definition seen_sound :: "(string \<rightharpoonup> nat \<times> nat) \<Rightarrow> 'a entry list \<Rightarrow> bool" where
  "seen_sound seen r \<longleftrightarrow>
     (\<forall>k i s. seen k = Some (i, s) \<longrightarrow>
        i < length r \<and> entry_key (r ! i) = Some k \<and> scoreMovieForMerge (r ! i) = s)"

definition seen_complete :: "(string \<rightharpoonup> nat \<times> nat) \<Rightarrow> 'a entry list \<Rightarrow> bool" where
  "seen_complete seen r \<longleftrightarrow>
     (\<forall>i k. i < length r \<longrightarrow> entry_key (r ! i) = Some k \<longrightarrow> (\<exists>s. seen k = Some (i, s)))"

definition seen_covers :: "(string \<rightharpoonup> nat \<times> nat) \<Rightarrow> 'a entry list \<Rightarrow> bool" where
  "seen_covers seen l \<longleftrightarrow>
     (\<forall>e \<in> set l. \<forall>k. entry_key e = Some k \<longrightarrow>
        (\<exists>i s. seen k = Some (i, s) \<and> scoreMovieForMerge e \<le> s))"

definition dedupe_inv ::
  "'a entry list \<Rightarrow> (string \<rightharpoonup> nat \<times> nat) \<times> 'a entry list \<Rightarrow> bool" where
  "dedupe_inv l st \<longleftrightarrow>
     seen_sound (fst st) (snd st) \<and> seen_complete (fst st) (snd st) \<and>
     seen_covers (fst st) l \<and> set (snd st) \<subseteq> set l"

text \<open>Sample objects for the closed instances below.\<close>

definition no_movie :: movie where
  "no_movie = \<lparr>movie_id = None, poster_path = None, overview = None, vote_average = None,
     score = None, vote_count = None, voteCount = None, release_date = None,
     criticScores = False, directors = None, topCast = None, genre_ids = None,
     priority = None\<rparr>"

definition poster_only :: movie where
  "poster_only = no_movie\<lparr>movie_id := Some ''7'', poster_path := Some ''/p.jpg''\<rparr>"

definition rated_only :: movie where
  "rated_only = no_movie\<lparr>movie_id := Some ''7'', vote_average := Some (Fin 8),
     vote_count := Some (Fin 100)\<rparr>"

section \<open>Candidate selection and priority ordering\<close>

definition MIN_VOTE_AVERAGE :: real where "MIN_VOTE_AVERAGE = 7"
definition MIN_VOTE_COUNT :: real where "MIN_VOTE_COUNT = 50"
definition MIN_PRIORITY_RESULTS :: nat where "MIN_PRIORITY_RESULTS = 12"

text \<open>\<open>a ?? b\<close> on two optional properties.\<close>

definition nullish_or :: "'b option \<Rightarrow> 'b option \<Rightarrow> 'b option" where
  "nullish_or a b = (case a of Some x \<Rightarrow> Some x | None \<Rightarrow> b)"

definition getVoteAverageValue :: "'a entry \<Rightarrow> real option" where
  "getVoteAverageValue e =
     (case e of None \<Rightarrow> None
      | Some m \<Rightarrow>
          (case nullish_or (vote_average m) (score m) of
             Some (Fin v) \<Rightarrow> Some v
           | _ \<Rightarrow> None))"

definition getVoteCountValue :: "'a entry \<Rightarrow> real option" where
  "getVoteCountValue e =
     (case e of None \<Rightarrow> None
      | Some m \<Rightarrow>
          (case nullish_or (vote_count m) (voteCount m) of
             Some (Fin v) \<Rightarrow> Some v
           | _ \<Rightarrow> None))"

definition meetsQualityThreshold :: "'a entry \<Rightarrow> real \<Rightarrow> real \<Rightarrow> bool" where
  "meetsQualityThreshold e minAverage minVotes =
     (case e of None \<Rightarrow> False
      | Some m \<Rightarrow>
          (let average = (case nullish_or (vote_average m) (score m) of
                            Some x \<Rightarrow> x | None \<Rightarrow> Fin 0);
               votes = (case nullish_or (vote_count m) (voteCount m) of
                          Some x \<Rightarrow> x | None \<Rightarrow> Fin 0)
           in case average of
                NotFinite \<Rightarrow> False
              | Fin a \<Rightarrow>
                  (case votes of
                     NotFinite \<Rightarrow> False
                   | Fin v \<Rightarrow> a \<ge> minAverage \<and> v \<ge> minVotes)))"

definition thresholds :: "(real \<times> real) list" where
  "thresholds =
     [(MIN_VOTE_AVERAGE, MIN_VOTE_COUNT),
      (max 6.5 (MIN_VOTE_AVERAGE - 0.5), max 25 (of_int \<lfloor>MIN_VOTE_COUNT / 2\<rfloor>)),
      (6, 10)]"

text \<open>
  The final filter of \<open>selectPriorityCandidates\<close>: \<open>vote_average\<close> and \<open>vote_count\<close>
  themselves (not their aliases) are finite numbers.
\<close>

definition has_numeric_rating_and_votes :: "'a entry \<Rightarrow> bool" where
  "has_numeric_rating_and_votes e =
     (case e of None \<Rightarrow> False
      | Some m \<Rightarrow>
          (case vote_average m of
             Some (Fin a) \<Rightarrow> (case vote_count m of Some (Fin v) \<Rightarrow> True | _ \<Rightarrow> False)
           | _ \<Rightarrow> False))"

text \<open>
  The \<open>for\<close> loop over the thresholds, with \<open>bestFallback\<close> as its state, followed by
  the code after the loop.
\<close>

fun select_loop :: "'a entry list \<Rightarrow> (real \<times> real) list \<Rightarrow> 'a entry list \<Rightarrow> 'a entry list" where
  "select_loop movies [] bestFallback =
     (if bestFallback \<noteq> [] then bestFallback
      else filter has_numeric_rating_and_votes movies)"
| "select_loop movies ((minAverage, minVotes) # rest) bestFallback =
     (let filtered = filter (\<lambda>e. meetsQualityThreshold e minAverage minVotes) movies in
      if length filtered \<ge> MIN_PRIORITY_RESULTS then filtered
      else select_loop movies rest
             (if filtered \<noteq> [] \<and> bestFallback = [] then filtered else bestFallback))"

definition selectPriorityCandidates :: "'a entry list \<Rightarrow> 'a entry list" where
  "selectPriorityCandidates movies =
     (if movies = [] then [] else select_loop movies thresholds [])"

text \<open>
  Candidate selection as the specification words it: the first tier that reaches the
  minimum count, otherwise every item with a numeric rating and vote count.
\<close>

definition spec_selectCandidates :: "'a entry list \<Rightarrow> 'a entry list" where
  "spec_selectCandidates movies =
     (let t1 = filter (\<lambda>e. meetsQualityThreshold e 7 50) movies;
          t2 = filter (\<lambda>e. meetsQualityThreshold e 6.5 25) movies;
          t3 = filter (\<lambda>e. meetsQualityThreshold e 6 10) movies
      in if length t1 \<ge> 12 then t1
         else if length t2 \<ge> 12 then t2
         else if length t3 \<ge> 12 then t3
         else filter has_numeric_rating_and_votes movies)"

datatype js_error = TypeError

definition yearMs :: real where
  "yearMs = 365 * 24 * 60 * 60 * 1000"

text \<open>\<open>Math.max(0, getVoteCountValue(m) || 0)\<close>.\<close>

definition clamped_votes :: "'a entry \<Rightarrow> real" where
  "clamped_votes e = max 0 (case getVoteCountValue e of None \<Rightarrow> 0 | Some v \<Rightarrow> v)"

text \<open>\<open>Math.max(...candidates.map(...), 1)\<close>.\<close>

definition maxVotes_of :: "'a entry list \<Rightarrow> real" where
  "maxVotes_of candidates = foldr max (map clamped_votes candidates) 1"

text \<open>
  The body of the \<open>map\<close> callback of \<open>applyPriorityOrdering\<close>. \<open>parseDate\<close> stands for
  \<open>new Date(s).getTime()\<close>, with \<open>None\<close> for NaN; \<open>now\<close> is \<open>Date.now()\<close>.
\<close>

definition priority_of :: "(string \<Rightarrow> real option) \<Rightarrow> real \<Rightarrow> real \<Rightarrow> 'a movie_scheme \<Rightarrow> real" where
  "priority_of parseDate now maxVotes m =
     (let averageValue = (case getVoteAverageValue (Some m) of None \<Rightarrow> 0 | Some a \<Rightarrow> a);
          rawAverage = max 0 (min 10 averageValue) / 10;
          votes = clamped_votes (Some m);
          voteVolume = log 10 (votes + 1) / log 10 (maxVotes + 1);
          confidence = min 1 (votes / 150);
          adjustedAverage = rawAverage * confidence + 0.6 * (1 - confidence);
          recency =
            (case release_date m of
               None \<Rightarrow> 0.5
             | Some s \<Rightarrow>
                 if s = [] then 0.5
                 else (case parseDate s of
                         None \<Rightarrow> 0.5
                       | Some release \<Rightarrow>
                           (let diff = now - release in
                            if diff \<le> 0 then 1
                            else if diff \<ge> yearMs then 0
                            else 1 - diff / yearMs)))
      in adjustedAverage * 0.3 + sqrt (max 0 voteVolume) * 0.5 + recency * 0.2)"

text \<open>\<open>x.__priority ?? 0\<close>; the comparator of the final sort is the difference of two.\<close>

definition priority_or_0 :: "'a entry \<Rightarrow> real" where
  "priority_or_0 e =
     (case e of None \<Rightarrow> 0 | Some m \<Rightarrow> (case priority m of None \<Rightarrow> 0 | Some p \<Rightarrow> p))"

text \<open>
  \<open>applyPriorityOrdering\<close>. Reading \<open>movie.release_date\<close> of a \<open>null\<close> candidate would
  throw; the sort is the stable sort of \<open>Array.prototype.sort\<close> under the comparator
  \<open>b.__priority - a.__priority\<close>, that is, by descending priority.
\<close>

definition applyPriorityOrdering ::
  "(string \<Rightarrow> real option) \<Rightarrow> real \<Rightarrow> 'a entry list \<Rightarrow> js_error + 'a entry list" where
  "applyPriorityOrdering parseDate now movies =
     (if movies = [] then Inr movies
      else
        (let candidates = selectPriorityCandidates movies in
         if candidates = [] then Inr []
         else if None \<in> set candidates then Inl TypeError
         else
           (let maxVotes = maxVotes_of candidates in
            Inr (sort_key (\<lambda>e. - priority_or_0 e)
                   (map (map_option
                           (\<lambda>m. m\<lparr>priority := Some (priority_of parseDate now maxVotes m)\<rparr>))
                      candidates)))))"

text \<open>
  The composite score in the words of the specification: the confidence-adjusted
  rating, the normalised logarithmic vote volume and the recency of a release whose age
  in milliseconds is known (\<open>Some\<close>) or not.
\<close>

definition spec_confidenceAdjustedRating :: "real \<Rightarrow> real \<Rightarrow> real" where
  "spec_confidenceAdjustedRating rating01 votes =
     rating01 * min 1 (votes / 150) + 0.6 * (1 - min 1 (votes / 150))"

definition spec_normalizedLogVoteVolume :: "real \<Rightarrow> real \<Rightarrow> real" where
  "spec_normalizedLogVoteVolume votes maxVotesInSet =
     log 10 (votes + 1) / log 10 (maxVotesInSet + 1)"

definition spec_recency :: "real option \<Rightarrow> real" where
  "spec_recency age =
     (case age of
        None \<Rightarrow> 0.5
      | Some d \<Rightarrow> if d \<le> 0 then 1 else if d \<ge> yearMs then 0 else 1 - d / yearMs)"

definition spec_score :: "real \<Rightarrow> real \<Rightarrow> real \<Rightarrow> real option \<Rightarrow> real" where
  "spec_score rating01 votes maxVotesInSet age =
     0.3 * spec_confidenceAdjustedRating rating01 votes +
     0.5 * sqrt (spec_normalizedLogVoteVolume votes maxVotesInSet) +
     0.2 * spec_recency age"

text \<open>The inputs of the score that the specification names, read off a candidate.\<close>

definition rating01 :: "'a entry \<Rightarrow> real" where
  "rating01 e = max 0 (min 10 (case getVoteAverageValue e of None \<Rightarrow> 0 | Some a \<Rightarrow> a)) / 10"

definition raw_votes :: "'a entry \<Rightarrow> real" where
  "raw_votes e = (case getVoteCountValue e of None \<Rightarrow> 0 | Some v \<Rightarrow> v)"

definition release_age :: "(string \<Rightarrow> real option) \<Rightarrow> real \<Rightarrow> 'a entry \<Rightarrow> real option" where
  "release_age parseDate now e =
     (case e of None \<Rightarrow> None
      | Some m \<Rightarrow>
          (case release_date m of
             None \<Rightarrow> None
           | Some s \<Rightarrow> if s = [] then None else map_option (\<lambda>r. now - r) (parseDate s)))"

text \<open>The largest vote count in a set of candidates.\<close>

definition maxVotesInSet :: "'a entry list \<Rightarrow> real" where
  "maxVotesInSet candidates = Max (set (map raw_votes candidates))"

definition with_priority :: "real \<Rightarrow> 'a entry \<Rightarrow> 'a entry" where
  "with_priority p e = map_option (\<lambda>m. m\<lparr>priority := Some p\<rparr>) e"

text \<open>More sample objects.\<close>

definition good_movie :: movie where
  "good_movie = no_movie\<lparr>movie_id := Some ''1'', vote_average := Some (Fin 8),
     vote_count := Some (Fin 100)\<rparr>"

definition weak_movie :: movie where
  "weak_movie = no_movie\<lparr>movie_id := Some ''2'', vote_average := Some (Fin 5),
     vote_count := Some (Fin 5)\<rparr>"

definition unrated_movie :: movie where
  "unrated_movie = no_movie\<lparr>movie_id := Some ''3'', overview := Some ''x''\<rparr>"

definition half_vote_movie :: movie where
  "half_vote_movie = no_movie\<lparr>movie_id := Some ''4'', vote_average := Some (Fin 5),
     vote_count := Some (Fin (1/2))\<rparr>"

definition fresh_movie :: movie where
  "fresh_movie = no_movie\<lparr>movie_id := Some ''5'', vote_average := Some (Fin 0),
     vote_count := Some (Fin 0), release_date := Some ''2999-01-01''\<rparr>"

definition undated_movie :: movie where
  "undated_movie = no_movie\<lparr>movie_id := Some ''6'', vote_average := Some (Fin 0),
     vote_count := Some (Fin 0)\<rparr>"

definition no_date :: "string \<Rightarrow> real option" where
  "no_date s = None"

definition sample_parseDate :: "string \<Rightarrow> real option" where
  "sample_parseDate s = (if s = ''2999-01-01'' then Some 32472144000000 else None)"

definition sample_now :: real where
  "sample_now = 1700000000000"

section \<open>Cache keys\<close>

text \<open>
  A cache key part: \<open>null\<close>/\<open>undefined\<close>, a string, an integer-valued number, a
  boolean, a \<open>URLSearchParams\<close> (its entries in order), an array, or a plain object (its
  own entries in property order, keys distinct). Strings are byte strings, as
  \<open>Buffer.from(raw, 'utf8')\<close> sees them.
\<close>

datatype part =
    PNull
  | PStr string
  | PNum int
  | PBool bool
  | PParams "(string \<times> string) list"
  | PArr "part list"
  | PObj "(string \<times> part) list"

text \<open>\<open>Array.prototype.join\<close> on strings.\<close>

fun join :: "string \<Rightarrow> string list \<Rightarrow> string" where
  "join sep [] = []"
| "join sep [x] = x"
| "join sep (x # y # ys) = x @ sep @ join sep (y # ys)"

text \<open>\<open>String(n)\<close> for an integer.\<close>

fun digits_of :: "nat \<Rightarrow> string" where
  "digits_of n =
     (if n < 10 then [char_of (48 + n)]
      else digits_of (n div 10) @ [char_of (48 + n mod 10)])"

definition string_of_int :: "int \<Rightarrow> string" where
  "string_of_int i = (if i < 0 then CHR ''-'' # digits_of (nat (- i)) else digits_of (nat i))"

text \<open>
  \<open>Array.prototype.sort\<close> with a comparator that returns a number. The sort is stable,
  and for a comparator that orders consistently every stable sort gives the same array;
  it is modelled by insertion from the right, each element going in front of the first
  one it does not follow.
\<close>

fun insert_by :: "('b \<Rightarrow> 'b \<Rightarrow> int) \<Rightarrow> 'b \<Rightarrow> 'b list \<Rightarrow> 'b list" where
  "insert_by cmp x [] = [x]"
| "insert_by cmp x (y # ys) = (if cmp x y \<le> 0 then x # y # ys else y # insert_by cmp x ys)"

definition array_sort :: "('b \<Rightarrow> 'b \<Rightarrow> int) \<Rightarrow> 'b list \<Rightarrow> 'b list" where
  "array_sort cmp xs = foldr (insert_by cmp) xs []"

lemma set_insert_by: "set (insert_by cmp x ys) = insert x (set ys)"
  by (induction ys) auto

lemma set_array_sort [termination_simp]: "set (array_sort cmp xs) = set xs"
  unfolding array_sort_def by (induction xs) (auto simp: set_insert_by)

text \<open>
  \<open>serializePart\<close>. \<open>String.prototype.localeCompare\<close> is a built-in that depends on the
  host's locale; it is the parameter \<open>cmp\<close>, which returns a negative number, zero or a
  positive number. The entries of an object are sorted by key under it. The entries of a
  \<open>URLSearchParams\<close> and the elements of an array keep their order.
\<close>

fun serializePart :: "(string \<Rightarrow> string \<Rightarrow> int) \<Rightarrow> part \<Rightarrow> string" where
  "serializePart cmp PNull = []"
| "serializePart cmp (PStr s) = s"
| "serializePart cmp (PNum n) = string_of_int n"
| "serializePart cmp (PBool b) = (if b then ''true'' else ''false'')"
| "serializePart cmp (PParams entries) =
     join ''&'' (map (\<lambda>kv. fst kv @ ''='' @ snd kv) entries)"
| "serializePart cmp (PArr ps) = join ''|'' (map (serializePart cmp) ps)"
| "serializePart cmp (PObj entries) =
     join '',''
       (map (\<lambda>kv. fst kv @ '':'' @ serializePart cmp (snd kv))
          (array_sort (\<lambda>a b. cmp (fst a) (fst b)) entries))"

text \<open>Base64 of a byte string, then the three \<open>replace\<close> calls of \<open>buildCacheId\<close>.\<close>

definition b64_alphabet :: string where
  "b64_alphabet = ''ABCDEFGHIJKLMNOPQRSTUVWXYZabcdefghijklmnopqrstuvwxyz0123456789+/''"

definition b64_char :: "nat \<Rightarrow> char" where
  "b64_char n = b64_alphabet ! (n mod 64)"

fun base64 :: "nat list \<Rightarrow> string" where
  "base64 [] = []"
| "base64 [a] = [b64_char (a div 4), b64_char ((a mod 4) * 16), CHR ''='', CHR ''='']"
| "base64 [a, b] =
     [b64_char (a div 4), b64_char ((a mod 4) * 16 + b div 16), b64_char ((b mod 16) * 4),
      CHR ''='']"
| "base64 (a # b # c # rest) =
     [b64_char (a div 4), b64_char ((a mod 4) * 16 + b div 16),
      b64_char ((b mod 16) * 4 + c div 64), b64_char (c mod 64)] @ base64 rest"

definition strip_padding :: "string \<Rightarrow> string" where
  "strip_padding s = rev (dropWhile (\<lambda>c. c = CHR ''='') (rev s))"

definition buildCacheId :: "(string \<Rightarrow> string \<Rightarrow> int) \<Rightarrow> part \<Rightarrow> string" where
  "buildCacheId cmp parts =
     (let normalized = (case parts of PArr ps \<Rightarrow> map (serializePart cmp) ps
                        | _ \<Rightarrow> [serializePart cmp parts]);
          raw = join ''||'' normalized
      in strip_padding
           (map (\<lambda>c. if c = CHR ''/'' then CHR ''_'' else c)
              (map (\<lambda>c. if c = CHR ''+'' then CHR ''-'' else c)
                 (base64 (map of_char raw)))))"

text \<open>
  \<open>normalizeTmdbParams\<close> and \<open>tmdbCacheKeyParts\<close> of the upstream proxy. The comparator
  of the sort compares the values when the keys are the same string and the keys
  otherwise, both with \<open>localeCompare\<close>.
\<close>

definition param_compare ::
  "(string \<Rightarrow> string \<Rightarrow> int) \<Rightarrow> string \<times> string \<Rightarrow> string \<times> string \<Rightarrow> int" where
  "param_compare cmp a b =
     (if fst a = fst b then cmp (snd a) (snd b) else cmp (fst a) (fst b))"

definition normalizeTmdbParams ::
  "(string \<Rightarrow> string \<Rightarrow> int) \<Rightarrow> (string \<times> string) list option \<Rightarrow> (string \<times> string) list" where
  "normalizeTmdbParams cmp params =
     (case params of
        None \<Rightarrow> []
      | Some entries \<Rightarrow>
          array_sort (param_compare cmp) (filter (\<lambda>kv. fst kv \<noteq> ''api_key'') entries))"

definition is_space :: "char \<Rightarrow> bool" where
  "is_space c \<longleftrightarrow> c \<in> set [CHR '' '', CHR 0x09, CHR 0x0A, CHR 0x0B, CHR 0x0C, CHR 0x0D]"

definition trim :: "string \<Rightarrow> string" where
  "trim s = rev (dropWhile is_space (rev (dropWhile is_space s)))"

definition tmdbCacheKeyParts ::
  "(string \<Rightarrow> string \<Rightarrow> int) \<Rightarrow> string option \<Rightarrow> (string \<times> string) list option \<Rightarrow> part" where
  "tmdbCacheKeyParts cmp path params =
     (let normalizedPath = trim (case path of None \<Rightarrow> [] | Some p \<Rightarrow> p);
          normalizedParams = normalizeTmdbParams cmp params;
          serializedParams =
            join ''&'' (map (\<lambda>kv. fst kv @ ''='' @ snd kv) normalizedParams)
      in PArr [PStr ''tmdb'', PStr normalizedPath, PStr serializedParams])"

section \<open>Tiered response cache\<close>

definition MAX_IN_MEMORY_CACHE_ENTRIES :: nat where
  "MAX_IN_MEMORY_CACHE_ENTRIES = 500"

text \<open>
  A payload handed to the cache. \<open>p_status\<close> is \<open>Some\<close> when \<open>typeof status\<close> is
  \<open>'number'\<close>, \<open>p_contentType\<close> and \<open>p_body\<close> when the property is a string, and
  \<open>p_metadata\<close> when it is neither \<open>null\<close> nor \<open>undefined\<close>.
\<close>

record payload =
  p_status :: "int option"
  p_contentType :: "string option"
  p_body :: "string option"
  p_metadata :: "part option"

text \<open>What a read returns.\<close>

record response =
  r_status :: int
  r_contentType :: string
  r_body :: string
  r_metadata :: "part option"

text \<open>An entry of the in-process map: a response with its fetch time.\<close>

record mem_entry = response +
  fetchedAt :: int

text \<open>
  A document of the durable store. \<open>d_fetchedMs\<close> is \<open>fetchedAt.toMillis()\<close>, or
  \<open>None\<close> when the document has no such timestamp.
\<close>

record doc =
  d_status :: "int option"
  d_contentType :: "string option"
  d_body :: "string option"
  d_metadata :: "part option"
  d_fetchedMs :: "int option"

text \<open>
  The state: the in-process \<open>Map\<close> in insertion order and the documents of the durable
  store by collection and id. The environment: the \<open>REQUIRE_FIRESTORE\<close> flag, whether
  \<open>getFirestore()\<close> returns a handle, whether the awaited store call throws, and the
  host's \<open>localeCompare\<close>.
\<close>

record cache_state =
  inMemoryCache :: "(string \<times> mem_entry) list"
  firestore :: "string \<times> string \<rightharpoonup> doc"

record cache_env =
  REQUIRE_FIRESTORE :: bool
  db_available :: bool
  db_throws :: bool
  localeCompare :: "string \<Rightarrow> string \<Rightarrow> int"

definition is_object :: "part \<Rightarrow> bool" where
  "is_object p = (case p of PParams _ \<Rightarrow> True | PArr _ \<Rightarrow> True | PObj _ \<Rightarrow> True | _ \<Rightarrow> False)"

definition js_truthy :: "part \<Rightarrow> bool" where
  "js_truthy p =
     (case p of PNull \<Rightarrow> False | PStr s \<Rightarrow> s \<noteq> [] | PNum n \<Rightarrow> n \<noteq> 0 | PBool b \<Rightarrow> b
      | _ \<Rightarrow> True)"

definition nonempty_string :: "string option \<Rightarrow> bool" where
  "nonempty_string s = (case s of None \<Rightarrow> False | Some t \<Rightarrow> t \<noteq> [])"

definition default_contentType :: "string option \<Rightarrow> string" where
  "default_contentType c =
     (case c of None \<Rightarrow> ''application/json''
      | Some t \<Rightarrow> if t \<noteq> [] then t else ''application/json'')"

definition default_status :: "int option \<Rightarrow> int" where
  "default_status s = (case s of None \<Rightarrow> 200 | Some n \<Rightarrow> n)"

definition object_or_null :: "part option \<Rightarrow> part option" where
  "object_or_null m = (case m of None \<Rightarrow> None | Some p \<Rightarrow> if is_object p then Some p else None)"

definition truthy_or_null :: "part option \<Rightarrow> part option" where
  "truthy_or_null m = (case m of None \<Rightarrow> None | Some p \<Rightarrow> if js_truthy p then Some p else None)"

definition rememberInMemory ::
  "cache_env \<Rightarrow> string \<Rightarrow> payload \<Rightarrow> int \<Rightarrow> cache_state \<Rightarrow> cache_state" where
  "rememberInMemory env docId pl fetched st =
     (if REQUIRE_FIRESTORE env then st
      else if docId = [] \<or> \<not> nonempty_string (p_body pl) then st
      else
        (let normalizedPayload =
               \<lparr>r_status = default_status (p_status pl),
                r_contentType = default_contentType (p_contentType pl),
                r_body = the (p_body pl),
                r_metadata = object_or_null (p_metadata pl),
                fetchedAt = fetched\<rparr>;
             m = AList.update docId normalizedPayload (inMemoryCache st)
         in if length m > MAX_IN_MEMORY_CACHE_ENTRIES
            then st\<lparr>inMemoryCache := tl m\<rparr>
            else st\<lparr>inMemoryCache := m\<rparr>))"

text \<open>A missing \<open>ttlMs\<close> (\<open>typeof ttlMs !== 'number'\<close>) is \<open>None\<close>.\<close>

definition ttl_expired :: "int option \<Rightarrow> int \<Rightarrow> int \<Rightarrow> bool" where
  "ttl_expired ttlMs now fetched =
     (case ttlMs of None \<Rightarrow> False | Some t \<Rightarrow> t > 0 \<and> now - fetched > t)"

definition readInMemoryCache ::
  "cache_env \<Rightarrow> string \<Rightarrow> int option \<Rightarrow> int \<Rightarrow> cache_state \<Rightarrow> response option \<times> cache_state" where
  "readInMemoryCache env docId ttlMs now st =
     (if REQUIRE_FIRESTORE env then (None, st)
      else if docId = [] then (None, st)
      else
        (case map_of (inMemoryCache st) docId of
           None \<Rightarrow> (None, st)
         | Some entry \<Rightarrow>
             if ttl_expired ttlMs now (fetchedAt entry)
             then (None, st\<lparr>inMemoryCache := AList.delete docId (inMemoryCache st)\<rparr>)
             else (Some \<lparr>r_status = r_status entry, r_contentType = r_contentType entry,
                         r_body = r_body entry,
                         r_metadata = truthy_or_null (r_metadata entry)\<rparr>, st)))"

text \<open>The fallback taken on every miss of the durable store.\<close>

definition fallback_read ::
  "cache_env \<Rightarrow> string \<Rightarrow> int option \<Rightarrow> int \<Rightarrow> cache_state \<Rightarrow> response option \<times> cache_state" where
  "fallback_read env docId ttlMs now st =
     (if REQUIRE_FIRESTORE env then (None, st) else readInMemoryCache env docId ttlMs now st)"

definition response_payload :: "response \<Rightarrow> payload" where
  "response_payload r =
     \<lparr>p_status = Some (r_status r), p_contentType = Some (r_contentType r),
      p_body = Some (r_body r), p_metadata = r_metadata r\<rparr>"

definition readCachedResponse ::
  "cache_env \<Rightarrow> string \<Rightarrow> part \<Rightarrow> int option \<Rightarrow> int \<Rightarrow> cache_state \<Rightarrow>
   response option \<times> cache_state" where
  "readCachedResponse env collection parts ttlMs now st =
     (let docId = buildCacheId (localeCompare env) parts in
      if \<not> db_available env then fallback_read env docId ttlMs now st
      else if db_throws env then fallback_read env docId ttlMs now st
      else
        (case firestore st (collection, docId) of
           None \<Rightarrow> fallback_read env docId ttlMs now st
         | Some data \<Rightarrow>
             if \<not> nonempty_string (d_body data) then fallback_read env docId ttlMs now st
             else
               (let pl = \<lparr>r_status = default_status (d_status data),
                          r_contentType = default_contentType (d_contentType data),
                          r_body = the (d_body data),
                          r_metadata = truthy_or_null (d_metadata data)\<rparr>;
                    fetchedMs = (case d_fetchedMs data of None \<Rightarrow> None
                                 | Some ms \<Rightarrow> if ms = 0 then None else Some ms)
                in case fetchedMs of
                     None \<Rightarrow>
                       (case ttlMs of
                          Some t \<Rightarrow>
                            if t > 0 then fallback_read env docId ttlMs now st
                            else (Some pl, rememberInMemory env docId (response_payload pl) now st)
                        | None \<Rightarrow>
                            (Some pl, rememberInMemory env docId (response_payload pl) now st))
                   | Some ms \<Rightarrow>
                       if ttl_expired ttlMs now ms
                       then (None, st\<lparr>inMemoryCache := AList.delete docId (inMemoryCache st)\<rparr>)
                       else (Some pl, rememberInMemory env docId (response_payload pl) ms st))))"

text \<open>
  \<open>writeCachedResponse\<close>. \<open>serverTimestamp()\<close> is resolved by the store; the model has
  one clock, so the document is stamped with \<open>now\<close>.
\<close>

definition writeCachedResponse ::
  "cache_env \<Rightarrow> string \<Rightarrow> part \<Rightarrow> payload \<Rightarrow> int \<Rightarrow> cache_state \<Rightarrow> cache_state" where
  "writeCachedResponse env collection parts pl now st =
     (if \<not> nonempty_string (p_body pl) then st
      else
        (let docId = buildCacheId (localeCompare env) parts;
             normalizedPayload =
               \<lparr>p_status = Some (default_status (p_status pl)),
                p_contentType = Some (default_contentType (p_contentType pl)),
                p_body = p_body pl,
                p_metadata = object_or_null (p_metadata pl)\<rparr>;
             st1 = rememberInMemory env docId normalizedPayload now st
         in if \<not> db_available env then st1
            else if db_throws env then st1
            else st1\<lparr>firestore := (firestore st1)((collection, docId) \<mapsto>
                   \<lparr>d_status = p_status normalizedPayload,
                    d_contentType = p_contentType normalizedPayload,
                    d_body = p_body normalizedPayload,
                    d_metadata = p_metadata normalizedPayload,
                    d_fetchedMs = Some now\<rparr>)\<rparr>))"

text \<open>The entry a caller gets back for a payload it stored.\<close>

definition stored_response :: "payload \<Rightarrow> response" where
  "stored_response pl =
     \<lparr>r_status = default_status (p_status pl),
      r_contentType = default_contentType (p_contentType pl),
      r_body = the (p_body pl),
      r_metadata = object_or_null (p_metadata pl)\<rparr>"

text \<open>Reachable states keep the in-process map within its bound, with distinct keys.\<close>

definition cache_wf :: "cache_state \<Rightarrow> bool" where
  "cache_wf st \<longleftrightarrow>
     distinct (map fst (inMemoryCache st)) \<and>
     length (inMemoryCache st) \<le> MAX_IN_MEMORY_CACHE_ENTRIES"

text \<open>
  A total order on strings that can be substituted for \<open>localeCompare\<close>: the order of their bytes.
\<close>

definition byte_compare :: "string \<Rightarrow> string \<Rightarrow> int" where
  "byte_compare a b = (if a < b then - 1 else if a = b then 0 else 1)"

text \<open>
  A comparator that, as ECMAScript requires of \<open>localeCompare\<close>, returns \<open>0\<close> for
  canonically equivalent strings. It knows one equivalence: the letter e followed by
  the combining acute accent (bytes 65 CC 81) and the precomposed letter (bytes C3 A9).
\<close>

fun compose_acute :: "string \<Rightarrow> string" where
  "compose_acute (a # b # c # rest) =
     (if a = CHR 0x65 \<and> b = CHR 0xCC \<and> c = CHR 0x81
      then CHR 0xC3 # CHR 0xA9 # compose_acute rest
      else a # compose_acute (b # c # rest))"
| "compose_acute s = s"

definition canonical_compare :: "string \<Rightarrow> string \<Rightarrow> int" where
  "canonical_compare a b = byte_compare (compose_acute a) (compose_acute b)"

definition e_acute_composed :: string where
  "e_acute_composed = [CHR 0xC3, CHR 0xA9]"

definition e_acute_decomposed :: string where
  "e_acute_decomposed = [CHR 0x65, CHR 0xCC, CHR 0x81]"

text \<open>
  A comparator orders a set of values consistently and tells them apart: any two are
  comparable, the order is transitive, and only equal values compare as equal.
\<close>

definition orders_apart :: "('b \<Rightarrow> 'b \<Rightarrow> int) \<Rightarrow> 'b set \<Rightarrow> bool" where
  "orders_apart cmp A \<longleftrightarrow>
     (\<forall>a \<in> A. \<forall>b \<in> A. cmp a b \<le> 0 \<or> cmp b a \<le> 0) \<and>
     (\<forall>a \<in> A. \<forall>b \<in> A. \<forall>c \<in> A. cmp a b \<le> 0 \<longrightarrow> cmp b c \<le> 0 \<longrightarrow> cmp a c \<le> 0) \<and>
     (\<forall>a \<in> A. \<forall>b \<in> A. cmp a b \<le> 0 \<longrightarrow> cmp b a \<le> 0 \<longrightarrow> a = b)"

text \<open>The entries of an upstream request that are not the credential.\<close>

definition without_api_key :: "(string \<times> string) list \<Rightarrow> (string \<times> string) list" where
  "without_api_key ps = filter (\<lambda>kv. fst kv \<noteq> ''api_key'') ps"

definition empty_cache :: cache_state where
  "empty_cache = \<lparr>inMemoryCache = [], firestore = Map.empty\<rparr>"

definition memory_only_env :: cache_env where
  "memory_only_env = \<lparr>REQUIRE_FIRESTORE = False, db_available = False, db_throws = False,
     localeCompare = byte_compare\<rparr>"

definition durable_env :: cache_env where
  "durable_env = \<lparr>REQUIRE_FIRESTORE = True, db_available = True, db_throws = False,
     localeCompare = byte_compare\<rparr>"

definition sample_payload :: payload where
  "sample_payload = \<lparr>p_status = None, p_contentType = None, p_body = Some ''{}'',
     p_metadata = None\<rparr>"

definition sample_params_a :: "(string \<times> string) list" where
  "sample_params_a = [(''page'', ''2''), (''api_key'', ''K1''), (''language'', ''en-US'')]"

definition sample_params_b :: "(string \<times> string) list" where
  "sample_params_b = [(''api_key'', ''K2''), (''language'', ''en-US''), (''page'', ''2'')]"

definition sample_obj_a :: "(string \<times> part) list" where
  "sample_obj_a = [(''title'', PStr ''Heat''), (''year'', PNum 1995)]"

definition sample_obj_b :: "(string \<times> part) list" where
  "sample_obj_b = [(''year'', PNum 1995), (''title'', PStr ''Heat'')]"

section \<open>Critic score enrichment state\<close>

datatype status = Idle | Loading | Loaded | Error

text \<open>
  A per-item state \<open>{ status, data, error }\<close>. The data bundle is left abstract;
  \<open>normalizeCriticScoresObject\<close> is the parameter \<open>normalizeScores\<close> of the functions below, with
  \<open>None\<close> for its \<open>null\<close>.
\<close>

record 'd critic_state =
  cs_status :: status
  cs_data :: "'d option"
  cs_error :: "string option"

text \<open>
  A movie object, restricted to the properties that the enrichment code reads. A string
  property is \<open>Some\<close> when \<open>typeof\<close> is \<open>'string'\<close>; \<open>cm_id\<close> is \<open>String(movie.id)\<close>.
\<close>

record 'd cmovie =
  cm_id :: "string option"
  cm_imdb_id :: "string option"
  cm_imdbId :: "string option"
  cm_title :: "string option"
  cm_name :: "string option"
  cm_release_date :: "string option"
  cm_criticScores :: "'d option"
  cm_criticScoresState :: "'d critic_state option"

text \<open>\<open>(typeof a === 'string' && f(a)) || (typeof b === 'string' && f(b)) || ''\<close>.\<close>

definition first_nonempty :: "(string \<Rightarrow> string) \<Rightarrow> string option \<Rightarrow> string option \<Rightarrow> string" where
  "first_nonempty f a b =
     (case a of
        Some s \<Rightarrow> if f s \<noteq> [] then f s
                  else (case b of Some t \<Rightarrow> f t | None \<Rightarrow> [])
      | None \<Rightarrow> (case b of Some t \<Rightarrow> f t | None \<Rightarrow> []))"

definition is_digit :: "char \<Rightarrow> bool" where
  "is_digit c \<longleftrightarrow> 48 \<le> (of_char c :: nat) \<and> (of_char c :: nat) \<le> 57"

definition lower_char :: "char \<Rightarrow> char" where
  "lower_char c =
     (if 65 \<le> (of_char c :: nat) \<and> (of_char c :: nat) \<le> 90
      then char_of ((of_char c :: nat) + 32) else c)"

definition getMovieCacheKey :: "'d cmovie \<Rightarrow> string option" where
  "getMovieCacheKey movie =
     (case cm_id movie of
        Some i \<Rightarrow> Some (''tmdb:'' @ i)
      | None \<Rightarrow>
          (let imdbId = trim (first_nonempty (\<lambda>s. s) (cm_imdb_id movie) (cm_imdbId movie)) in
           if imdbId \<noteq> [] then Some (''imdb:'' @ imdbId)
           else
             (let titleSource = first_nonempty trim (cm_title movie) (cm_name movie) in
              if titleSource = [] then None
              else
                (let normalizedTitle = map lower_char titleSource;
                     year = (case cm_release_date movie of
                               None \<Rightarrow> []
                             | Some d \<Rightarrow>
                                 if trim d = [] then []
                                 else (let p = takeWhile (\<lambda>c. c \<noteq> CHR ''-'') (trim d) in
                                       if length p = 4 \<and> list_all is_digit p then p else []))
                 in Some (''title:'' @ normalizedTitle @ ''|year:'' @ year)))))"

record lookup =
  l_imdbId :: "string option"
  l_title :: "string option"
  l_year :: "string option"

definition buildCriticLookup :: "'d cmovie \<Rightarrow> lookup option" where
  "buildCriticLookup movie =
     (let imdbId = trim (first_nonempty (\<lambda>s. s) (cm_imdb_id movie) (cm_imdbId movie));
          titleSource = first_nonempty trim (cm_title movie) (cm_name movie);
          year = (case cm_release_date movie of
                    None \<Rightarrow> []
                  | Some d \<Rightarrow>
                      if trim d = [] then []
                      else (let p = take 4 (trim d) in
                            if length p = 4 \<and> list_all is_digit p then p else []))
      in if imdbId = [] \<and> titleSource = [] then None
         else Some \<lparr>l_imdbId = (if imdbId \<noteq> [] then Some imdbId else None),
                     l_title = (if titleSource \<noteq> [] then Some titleSource else None),
                     l_year = (if year \<noteq> [] then Some year else None)\<rparr>)"

text \<open>\<open>a || b\<close> on optional data.\<close>

definition or_else :: "'b option \<Rightarrow> 'b option \<Rightarrow> 'b option" where
  "or_else a b = (case a of Some x \<Rightarrow> Some x | None \<Rightarrow> b)"

text \<open>
  \<open>getCriticScoreState\<close>, with the module map \<open>criticScoreStateById\<close> as explicit
  state. It returns the state together with the movie and the map as it leaves them.
\<close>

definition getCriticScoreState ::
  "('d \<Rightarrow> 'd option) \<Rightarrow> 'd cmovie \<Rightarrow> (string \<rightharpoonup> 'd critic_state) \<Rightarrow>
   'd critic_state \<times> 'd cmovie \<times> (string \<rightharpoonup> 'd critic_state)" where
  "getCriticScoreState normalizeScores movie byId =
     (case cm_criticScoresState movie of
        Some st \<Rightarrow> (st, movie, byId)
      | None \<Rightarrow>
          (let key = getMovieCacheKey movie;
               existingMovieScores = (case cm_criticScores movie of
                                        Some d \<Rightarrow> normalizeScores d | None \<Rightarrow> None);
               known = (case key of Some k \<Rightarrow> byId k | None \<Rightarrow> None)
           in case known of
                Some state \<Rightarrow>
                  (state,
                   movie\<lparr>cm_criticScores :=
                            (if cs_data state \<noteq> None \<and> existingMovieScores = None
                             then cs_data state else cm_criticScores movie),
                          cm_criticScoresState := Some state\<rparr>,
                   byId)
              | None \<Rightarrow>
                  (case existingMovieScores of
                     Some d \<Rightarrow>
                       (let state = \<lparr>cs_status = Loaded, cs_data = Some d, cs_error = None\<rparr> in
                        (state,
                         movie\<lparr>cm_criticScores := Some d, cm_criticScoresState := Some state\<rparr>,
                         (case key of Some k \<Rightarrow> byId(k \<mapsto> state) | None \<Rightarrow> byId)))
                   | None \<Rightarrow>
                       (\<lparr>cs_status = Idle, cs_data = None, cs_error = None\<rparr>, movie, byId))))"

text \<open>The argument of \<open>setCriticScoreState\<close>: any of its properties may be absent.\<close>

record 'd state_arg =
  a_status :: "status option"
  a_data :: "'d option"
  a_error :: "string option"

definition setCriticScoreState ::
  "('d \<Rightarrow> 'd option) \<Rightarrow> 'd cmovie \<Rightarrow> 'd state_arg \<Rightarrow> (string \<rightharpoonup> 'd critic_state) \<Rightarrow>
   'd cmovie \<times> (string \<rightharpoonup> 'd critic_state)" where
  "setCriticScoreState normalizeScores movie arg byId =
     (let key = getMovieCacheKey movie;
          existing = (case key of Some k \<Rightarrow> byId k | None \<Rightarrow> None);
          normalizedData = (case a_data arg of Some d \<Rightarrow> normalizeScores d | None \<Rightarrow> None);
          existingMovieScores = (case cm_criticScores movie of
                                   Some d \<Rightarrow> normalizeScores d | None \<Rightarrow> None);
          fallbackData =
            or_else normalizedData
              (or_else (case existing of Some e \<Rightarrow> cs_data e | None \<Rightarrow> None)
                 existingMovieScores);
          st = (case a_status arg of Some s \<Rightarrow> s | None \<Rightarrow> Idle);
          dat = (case st of
                   Loaded \<Rightarrow> or_else normalizedData fallbackData
                 | Loading \<Rightarrow> or_else normalizedData fallbackData
                 | Error \<Rightarrow> fallbackData
                 | Idle \<Rightarrow> or_else normalizedData fallbackData);
          movie1 = (if st = Loaded \<and> dat \<noteq> None then movie\<lparr>cm_criticScores := dat\<rparr>
                    else movie);
          nextState = \<lparr>cs_status = st, cs_data = dat,
                       cs_error = (case a_error arg of
                                     Some e \<Rightarrow> if e \<noteq> [] then Some e else None
                                   | None \<Rightarrow> None)\<rparr>
      in (movie1\<lparr>cm_criticScoresState := Some nextState\<rparr>,
          (case key of Some k \<Rightarrow> byId(k \<mapsto> nextState) | None \<Rightarrow> byId)))"

text \<open>
  What the awaited request produced: a failure (a response that is not ok, or a thrown
  error) with its message, or a body, already passed through
  \<open>normalizeCriticScoresResponse\<close>.
\<close>

datatype 'd outcome = Failed string | Responded "'d option"

text \<open>
  \<open>requestCriticScores\<close>. The result lists the movie and the map after each call of
  \<open>setCriticScoreState\<close>, in order; an empty list is the early return of the guard.
\<close>

definition requestCriticScores ::
  "('d \<Rightarrow> 'd option) \<Rightarrow> 'd cmovie \<Rightarrow> (string \<rightharpoonup> 'd critic_state) \<Rightarrow> bool \<Rightarrow> 'd outcome \<Rightarrow>
   ('d cmovie \<times> (string \<rightharpoonup> 'd critic_state)) list" where
  "requestCriticScores normalizeScores movie byId force result =
     (case getCriticScoreState normalizeScores movie byId of
        (state, movie1, byId1) \<Rightarrow>
          if \<not> force \<and> (cs_status state = Loading \<or> cs_status state = Loaded) then []
          else
            (case buildCriticLookup movie1 of
               None \<Rightarrow>
                 [setCriticScoreState normalizeScores movie1
                    \<lparr>a_status = Some Error, a_data = None,
                     a_error = Some ''Not enough information to fetch critic scores.''\<rparr> byId1]
             | Some lk \<Rightarrow>
                 (case setCriticScoreState normalizeScores movie1
                         \<lparr>a_status = Some Loading, a_data = cs_data state,
                          a_error = cs_error state\<rparr> byId1 of
                    (movie2, byId2) \<Rightarrow>
                      [(movie2, byId2),
                       (case result of
                          Failed msg \<Rightarrow>
                            setCriticScoreState normalizeScores movie2
                              \<lparr>a_status = Some Error, a_data = None, a_error = Some msg\<rparr> byId2
                        | Responded None \<Rightarrow>
                            setCriticScoreState normalizeScores movie2
                              \<lparr>a_status = Some Error, a_data = None,
                               a_error = Some ''Critic scores are unavailable for this title.''\<rparr>
                              byId2
                        | Responded (Some normalized) \<Rightarrow>
                            setCriticScoreState normalizeScores movie2
                              \<lparr>a_status = Some Loaded, a_data = Some normalized,
                               a_error = None\<rparr> byId2)])))"

text \<open>The state of an item, as \<open>getCriticScoreState\<close> reports it.\<close>

definition status_of ::
  "('d \<Rightarrow> 'd option) \<Rightarrow> 'd cmovie \<times> (string \<rightharpoonup> 'd critic_state) \<Rightarrow> status" where
  "status_of normalizeScores ms = cs_status (fst (getCriticScoreState normalizeScores (fst ms) (snd ms)))"

text \<open>The successive states an item goes through during one request.\<close>

definition request_trace ::
  "('d \<Rightarrow> 'd option) \<Rightarrow> 'd cmovie \<Rightarrow> (string \<rightharpoonup> 'd critic_state) \<Rightarrow> bool \<Rightarrow> 'd outcome \<Rightarrow>
   status list" where
  "request_trace normalizeScores movie byId force result =
     map (status_of normalizeScores) (requestCriticScores normalizeScores movie byId force result)"

definition keep_scores :: "string \<Rightarrow> string option" where
  "keep_scores d = Some d"

definition titled_movie :: "string cmovie" where
  "titled_movie = \<lparr>cm_id = Some ''603'', cm_imdb_id = None, cm_imdbId = None,
     cm_title = Some ''The Matrix'', cm_name = None, cm_release_date = Some ''1999-03-31'',
     cm_criticScores = None, cm_criticScoresState = None\<rparr>"

definition failed_movie :: "string cmovie" where
  "failed_movie = titled_movie\<lparr>cm_criticScoresState :=
     Some \<lparr>cs_status = Error, cs_data = None, cs_error = Some ''Request failed''\<rparr>\<rparr>"

definition scored_movie :: "string cmovie" where
  "scored_movie = titled_movie\<lparr>cm_criticScoresState :=
     Some \<lparr>cs_status = Loaded, cs_data = Some ''87%'', cs_error = None\<rparr>\<rparr>"

definition untitled_movie :: "string cmovie" where
  "untitled_movie = \<lparr>cm_id = Some ''604'', cm_imdb_id = None, cm_imdbId = None,
     cm_title = None, cm_name = None, cm_release_date = None,
     cm_criticScores = None, cm_criticScoresState = None\<rparr>"

definition no_states :: "string \<rightharpoonup> string critic_state" where
  "no_states = Map.empty"

section \<open>Progressive discovery cursor\<close>

definition INITIAL_DISCOVER_PAGES :: int where "INITIAL_DISCOVER_PAGES = 3"
definition MAX_DISCOVER_PAGES :: int where "MAX_DISCOVER_PAGES = 10"
definition MAX_DISCOVER_PAGES_LIMIT :: int where "MAX_DISCOVER_PAGES_LIMIT = 30"
definition TMDB_DISCOVER_HISTORY_LIMIT :: nat where "TMDB_DISCOVER_HISTORY_LIMIT = 50"

text \<open>
  A stored cursor entry. Page numbers and page counts are integers (the code floors
  them on every write); a total that is \<open>null\<close> is \<open>None\<close>.
\<close>

record discover_entry =
  nextPage :: int
  allowedPages :: int
  totalPages :: "int option"
  exhausted :: bool
  updatedAt :: int
  lastAttempt :: "int option"

text \<open>The object handed to \<open>writeTmdbDiscoverState\<close> by \<open>commitProgress\<close>.\<close>

record discover_payload =
  w_nextPage :: int
  w_allowedPages :: int
  w_totalPages :: "int option"
  w_exhausted :: bool

text \<open>
  \<open>normalizeTmdbDiscoverStateEntry\<close>, on the object that \<open>writeTmdbDiscoverState\<close>
  builds: \<open>Number(null)\<close> is \<open>0\<close>, so a missing total stays missing.
\<close>

definition normalizeTmdbDiscoverStateEntry ::
  "int \<Rightarrow> int \<Rightarrow> int \<Rightarrow> int option \<Rightarrow> bool \<Rightarrow> int \<Rightarrow> int \<Rightarrow> discover_entry" where
  "normalizeTmdbDiscoverStateEntry now nextPageRaw allowedRaw totalRaw exh updatedRaw lastAttemptRaw =
     (let np = (if nextPageRaw > 0 then nextPageRaw else 1);
          ap = max MAX_DISCOVER_PAGES
                 (max (if allowedRaw > 0 then allowedRaw else MAX_DISCOVER_PAGES) np);
          tp = (case totalRaw of None \<Rightarrow> None | Some t \<Rightarrow> if t > 0 then Some t else None)
      in \<lparr>nextPage = np, allowedPages = ap, totalPages = tp, exhausted = exh,
          updatedAt = (if updatedRaw > 0 then updatedRaw else now),
          lastAttempt = (if lastAttemptRaw > 0 then Some lastAttemptRaw else None)\<rparr>)"

text \<open>The history \<open>Map\<close>, in insertion order, and the loop that evicts its oldest keys.\<close>

type_synonym discover_history = "(string \<times> discover_entry) list"

function evict_oldest :: "discover_history \<Rightarrow> discover_history" where
  "evict_oldest h =
     (if length h > TMDB_DISCOVER_HISTORY_LIMIT then evict_oldest (tl h) else h)"
  by pat_completeness auto
termination
  by (relation "measure length") (auto simp: TMDB_DISCOVER_HISTORY_LIMIT_def)

definition readTmdbDiscoverState :: "string \<Rightarrow> discover_history \<Rightarrow> discover_entry option" where
  "readTmdbDiscoverState key h = (if key = [] then None else map_of h key)"

definition writeTmdbDiscoverState ::
  "int \<Rightarrow> string \<Rightarrow> discover_payload \<Rightarrow> discover_history \<Rightarrow> discover_history" where
  "writeTmdbDiscoverState now key state h =
     (if key = [] then h
      else
        (let normalizedTotal = (case w_totalPages state of
                                  None \<Rightarrow> None | Some t \<Rightarrow> if t > 0 then Some t else None);
             normalizedAllowed = (if w_allowedPages state > 0 then w_allowedPages state
                                  else MAX_DISCOVER_PAGES);
             np = (if w_nextPage state > 0 then w_nextPage state else 1);
             payload = normalizeTmdbDiscoverStateEntry now np normalizedAllowed normalizedTotal
                         (w_exhausted state) now now
         in case map_of h key of
              Some existing \<Rightarrow>
                if nextPage existing = nextPage payload \<and>
                   allowedPages existing = allowedPages payload \<and>
                   totalPages existing = totalPages payload \<and>
                   exhausted existing = exhausted payload
                then AList.update key
                       (existing\<lparr>updatedAt := updatedAt payload,
                                 lastAttempt := lastAttempt payload\<rparr>) h
                else evict_oldest (AList.delete key h @ [(key, payload)])
            | None \<Rightarrow> evict_oldest (AList.delete key h @ [(key, payload)])))"

text \<open>
  The surroundings of one call of \<open>fetchMoviesFromTmdb\<close>: the upstream page request
  (\<open>None\<close> when it throws), \<open>applyFeedFilters\<close> under the current filter state, the
  arguments \<open>minFeedSize\<close> and \<open>suppressedIds\<close>, and the clock, read once.
\<close>

record 'a discover_env =
  fetchDiscoverPage :: "int \<Rightarrow> ('a entry list \<times> int option) option"
  applyFeedFilters :: "'a entry list \<Rightarrow> 'a entry list"
  minFeedSize :: int
  suppressedIds :: "string set"
  dateParser :: "string \<Rightarrow> real option"
  now_ms :: int

text \<open>
  One iteration of either \<open>forEach\<close> that fills \<open>collected\<close>: entries without an id and
  entries seen before are skipped; a suppressed id is marked seen but not collected.
\<close>

definition add_unseen ::
  "string set \<Rightarrow> string set \<times> 'a entry list \<Rightarrow> 'a entry \<Rightarrow> string set \<times> 'a entry list" where
  "add_unseen suppressed sc e =
     (case entry_key e of
        None \<Rightarrow> sc
      | Some idKey \<Rightarrow>
          if idKey \<in> fst sc then sc
          else (insert idKey (fst sc),
                if idKey \<in> suppressed then snd sc else snd sc @ [e]))"

text \<open>The variables of the paging loop, with the pages requested so far.\<close>

record 'a loop_state =
  ls_page :: int
  ls_allowedPages :: int
  ls_totalPages :: "int option"
  ls_seen :: "string set"
  ls_collected :: "'a entry list"
  ls_prioritized :: "'a entry list"
  ls_fetched :: "int list"

text \<open>How an iteration leaves the loop, if it does.\<close>

datatype loop_exit = Threw | Enough | ReachedEnd

definition prioritize :: "'a discover_env \<Rightarrow> 'a entry list \<Rightarrow> js_error + 'a entry list" where
  "prioritize env xs = applyPriorityOrdering (dateParser env) (of_int (now_ms env)) xs"

definition loop_body :: "'a discover_env \<Rightarrow> 'a loop_state \<Rightarrow> loop_exit option \<times> 'a loop_state" where
  "loop_body env s =
     (let currentPage = ls_page s in
      case fetchDiscoverPage env currentPage of
        None \<Rightarrow> (Some Threw, s)
      | Some (pageResults, reportedTotal) \<Rightarrow>
          (let total = (case reportedTotal of
                          Some r \<Rightarrow> if r > 0 then Some r else ls_totalPages s
                        | None \<Rightarrow> ls_totalPages s);
               sc = foldl (add_unseen (suppressedIds env)) (ls_seen s, ls_collected s) pageResults;
               s1 = s\<lparr>ls_totalPages := total, ls_seen := fst sc, ls_collected := snd sc,
                      ls_fetched := ls_fetched s @ [currentPage]\<rparr>
           in case prioritize env (snd sc) of
                Inl err \<Rightarrow> (Some Threw, s1)
              | Inr prioritized \<Rightarrow>
                  (let s2 = s1\<lparr>ls_prioritized := prioritized\<rparr> in
                   if int (length (applyFeedFilters env prioritized)) \<ge> minFeedSize env
                   then (Some Enough, s2\<lparr>ls_page := currentPage + 1\<rparr>)
                   else if pageResults = [] \<and>
                           (case total of None \<Rightarrow> True | Some t \<Rightarrow> currentPage \<ge> t)
                   then (Some ReachedEnd, s2\<lparr>ls_page := currentPage + 1\<rparr>)
                   else
                     (let page = currentPage + 1;
                          allowed = ls_allowedPages s
                      in (None,
                          s2\<lparr>ls_page := page,
                             ls_allowedPages :=
                               (if page > allowed \<and> allowed < MAX_DISCOVER_PAGES_LIMIT
                                then min MAX_DISCOVER_PAGES_LIMIT
                                       (max (allowed + INITIAL_DISCOVER_PAGES) page)
                                else allowed)\<rparr>)))))"

definition loop_cond :: "'a loop_state \<Rightarrow> bool" where
  "loop_cond s \<longleftrightarrow>
     ls_page s \<le> ls_allowedPages s \<and>
     (case ls_totalPages s of None \<Rightarrow> True | Some t \<Rightarrow> ls_page s \<le> t)"

definition loop_measure :: "'a loop_state \<Rightarrow> nat" where
  "loop_measure s = nat (max (ls_allowedPages s) MAX_DISCOVER_PAGES_LIMIT + 1 - ls_page s)"

lemma loop_body_decreases:
  assumes "loop_cond s" and "loop_body env s = (None, s')"
  shows "loop_measure s' < loop_measure s"
proof -
  obtain rs rt where f: "fetchDiscoverPage env (ls_page s) = Some (rs, rt)"
    using assms(2) by (cases "fetchDiscoverPage env (ls_page s)") (auto simp: loop_body_def)
  have p: "ls_page s' = ls_page s + 1"
    using assms(2) f
    by (auto simp: loop_body_def Let_def split: sum.splits if_splits)
  have a: "max (ls_allowedPages s') MAX_DISCOVER_PAGES_LIMIT
             = max (ls_allowedPages s) MAX_DISCOVER_PAGES_LIMIT"
    using assms(2) f
    by (auto simp: loop_body_def Let_def split: sum.splits if_splits)
  have "ls_page s \<le> ls_allowedPages s" using assms(1) by (simp add: loop_cond_def)
  then show ?thesis unfolding loop_measure_def p a by simp
qed

text \<open>The \<open>while\<close> loop: \<open>None\<close> when its condition ends it.\<close>

function discover_loop :: "'a discover_env \<Rightarrow> 'a loop_state \<Rightarrow> loop_exit option \<times> 'a loop_state" where
  "discover_loop env s =
     (if loop_cond s
      then (case loop_body env s of
              (Some how, s') \<Rightarrow> (Some how, s')
            | (None, s') \<Rightarrow> discover_loop env s')
      else (None, s))"
  by pat_completeness auto
termination
  by (relation "measure (\<lambda>(env, s). loop_measure s)")
     (auto intro: loop_body_decreases[OF _ sym])

datatype 'a fetch_result = Rejected | Returned "'a entry list"

text \<open>\<open>prioritized.length ? prioritized : applyPriorityOrdering(collected)\<close>.\<close>

definition best_available :: "'a discover_env \<Rightarrow> 'a entry list \<Rightarrow> 'a entry list \<Rightarrow> 'a fetch_result" where
  "best_available env prioritized collected =
     (if prioritized \<noteq> [] then Returned prioritized
      else (case prioritize env collected of Inl err \<Rightarrow> Rejected | Inr p \<Rightarrow> Returned p))"

text \<open>\<open>commitProgress\<close>, called only after a network request was made.\<close>

definition commitProgress ::
  "int \<Rightarrow> string \<Rightarrow> 'a loop_state \<Rightarrow> bool option \<Rightarrow> bool \<Rightarrow> discover_history \<Rightarrow> discover_history" where
  "commitProgress now requestKey s exhaustedArg reachedEnd h =
     (let normalizedTotal = (case ls_totalPages s of
                               None \<Rightarrow> None | Some t \<Rightarrow> if t > 0 then Some t else None);
          payload =
            \<lparr>w_nextPage = max 1 (ls_page s),
             w_allowedPages = max (ls_allowedPages s) (max MAX_DISCOVER_PAGES (ls_page s)),
             w_totalPages = normalizedTotal,
             w_exhausted =
               (case exhaustedArg of
                  Some b \<Rightarrow> b
                | None \<Rightarrow>
                    reachedEnd \<and>
                    (case normalizedTotal of None \<Rightarrow> True | Some t \<Rightarrow> ls_page s - 1 \<ge> t))\<rparr>
      in writeTmdbDiscoverState now requestKey payload h)"

text \<open>
  Where a call resumes: the page, the ceiling and the total of the stored entry, and the
  test that skips the network altogether.
\<close>

definition resume_page :: "discover_entry option \<Rightarrow> int" where
  "resume_page history =
     max 1 (case history of None \<Rightarrow> 1 | Some e \<Rightarrow> if nextPage e = 0 then 1 else nextPage e)"

definition resume_allowed :: "discover_entry option \<Rightarrow> int" where
  "resume_allowed history =
     max MAX_DISCOVER_PAGES
       (max (case history of
               None \<Rightarrow> MAX_DISCOVER_PAGES
             | Some e \<Rightarrow> if allowedPages e > 0 then allowedPages e else MAX_DISCOVER_PAGES)
          (resume_page history))"

definition resume_total :: "discover_entry option \<Rightarrow> int option" where
  "resume_total history =
     (case history of
        None \<Rightarrow> None
      | Some e \<Rightarrow> (case totalPages e of None \<Rightarrow> None | Some t \<Rightarrow> if t > 0 then Some t else None))"

definition known_exhausted :: "discover_entry option \<Rightarrow> bool" where
  "known_exhausted history =
     (case history of
        None \<Rightarrow> False
      | Some e \<Rightarrow>
          exhausted e \<and>
          (case totalPages e of None \<Rightarrow> False | Some t \<Rightarrow> t > 0 \<and> resume_page history > t))"

text \<open>
  The function is asynchronous: it reads the cursor once, before the loop, waits for every
  page, and calls \<open>commitProgress\<close> at most once, after its last page. What that call
  writes is fixed by the loop variables and its argument; the map it writes to is the
  shared one, as it is at that moment.
\<close>

type_synonym 'a progress = "'a loop_state \<times> bool option \<times> bool"

text \<open>The code after the loop, and the early return from inside it.\<close>

definition after_loop ::
  "'a discover_env \<Rightarrow> loop_exit option \<times> 'a loop_state \<Rightarrow>
   'a fetch_result \<times> 'a progress option \<times> int list" where
  "after_loop env ended =
     (let how = fst ended; s = snd ended in
      if how = Some Threw then (Rejected, None, ls_fetched s)
      else if how = Some Enough
      then (Returned (ls_prioritized s), Some (s, Some False, False), ls_fetched s)
      else
        (let madeNetworkRequest = (ls_fetched s \<noteq> []);
             reachedEnd =
               (how = Some ReachedEnd \<or>
                (madeNetworkRequest \<and>
                 (case ls_totalPages s of None \<Rightarrow> False | Some t \<Rightarrow> t > 0 \<and> ls_page s > t)))
         in (best_available env (ls_prioritized s) (ls_collected s),
             (if madeNetworkRequest then Some (s, None, reachedEnd) else None),
             ls_fetched s)))"

text \<open>
  The body of \<open>fetchMoviesFromTmdb\<close> from the cursor \<open>history\<close> that it read: what the call
  returns, the progress it commits when it ends (if any), and the pages it requested
  upstream, in order.
\<close>

definition discover_call ::
  "'a discover_env \<Rightarrow> 'a entry list \<Rightarrow> discover_entry option \<Rightarrow>
   'a fetch_result \<times> 'a progress option \<times> int list" where
  "discover_call env existingMovies history =
     (let sc = foldl (add_unseen {}) ({}, []) existingMovies;
          seen = fst sc; collected = snd sc
      in case prioritize env collected of
           Inl err \<Rightarrow> (Rejected, None, [])
         | Inr prioritized \<Rightarrow>
             if int (length (applyFeedFilters env prioritized)) \<ge> minFeedSize env
             then (Returned prioritized, None, [])
             else if known_exhausted history
             then (best_available env prioritized collected, None, [])
             else after_loop env
                    (discover_loop env
                       \<lparr>ls_page = resume_page history,
                        ls_allowedPages = resume_allowed history,
                        ls_totalPages = resume_total history,
                        ls_seen = seen, ls_collected = collected,
                        ls_prioritized = prioritized, ls_fetched = []\<rparr>))"

text \<open>The end of a call: its progress is committed to the history as it is then.\<close>

definition complete_call ::
  "int \<Rightarrow> string \<Rightarrow> 'a progress option \<Rightarrow> discover_history \<Rightarrow> discover_history" where
  "complete_call now requestKey progress h =
     (case progress of
        None \<Rightarrow> h
      | Some (s, exhaustedArg, reachedEnd) \<Rightarrow>
          commitProgress now requestKey s exhaustedArg reachedEnd h)"

text \<open>
  \<open>fetchMoviesFromTmdb\<close> for the signature \<open>requestKey\<close> (the value of
  \<open>buildTmdbDiscoverKey\<close> under the current filters), when no other call runs between its
  start and its end. It yields what the call returns, the history it leaves, and the
  pages it requested upstream, in order.
\<close>

definition fetchMoviesFromTmdb ::
  "'a discover_env \<Rightarrow> string \<Rightarrow> 'a entry list \<Rightarrow> discover_history \<Rightarrow>
   'a fetch_result \<times> discover_history \<times> int list" where
  "fetchMoviesFromTmdb env requestKey existingMovies h =
     (case discover_call env existingMovies (readTmdbDiscoverState requestKey h) of
        (result, progress, fetched) \<Rightarrow>
          (result, complete_call (now_ms env) requestKey progress h, fetched))"

text \<open>
  A run of calls for one signature, each with its own surroundings and accumulated
  movies, each starting after the one before it has ended: the history after each call.
\<close>

fun run_calls ::
  "string \<Rightarrow> ('a discover_env \<times> 'a entry list) list \<Rightarrow> discover_history \<Rightarrow> discover_history list" where
  "run_calls key [] h = []"
| "run_calls key (c # cs) h =
     (let h' = fst (snd (fetchMoviesFromTmdb (fst c) key (snd c) h)) in h' # run_calls key cs h')"

text \<open>
  Two calls for one signature that overlap: \<open>a\<close> starts and waits for its first page,
  \<open>b\<close> starts, reads the same cursor and runs to its end, then \<open>a\<close> ends. The history
  after each of the two ends.
\<close>

definition overlapping_calls ::
  "string \<Rightarrow> 'a discover_env \<times> 'a entry list \<Rightarrow> 'a discover_env \<times> 'a entry list \<Rightarrow>
   discover_history \<Rightarrow> discover_history list" where
  "overlapping_calls key a b h =
     (let history = readTmdbDiscoverState key h;
          progress_a = fst (snd (discover_call (fst a) (snd a) history));
          progress_b = fst (snd (discover_call (fst b) (snd b) history));
          h1 = complete_call (now_ms (fst b)) key progress_b h;
          h2 = complete_call (now_ms (fst a)) key progress_a h1
      in [h1, h2])"

text \<open>
  The movies that the first \<open>forEach\<close> accumulates, said without the set \<open>seen\<close>: the first
  entry of each id, in order; entries without an id are left out.
\<close>

fun first_by_id :: "'a entry list \<Rightarrow> 'a entry list" where
  "first_by_id [] = []"
| "first_by_id (e # es) =
     (case entry_key e of
        None \<Rightarrow> first_by_id es
      | Some k \<Rightarrow> e # first_by_id (filter (\<lambda>x. entry_key x \<noteq> Some k) es))"

text \<open>Sample surroundings and histories.\<close>

definition sample_key :: string where
  "sample_key = ''direct|7|50|||all''"

definition offline_env :: "unit discover_env" where
  "offline_env = \<lparr>fetchDiscoverPage = (\<lambda>p. None), applyFeedFilters = (\<lambda>xs. xs),
     minFeedSize = 12, suppressedIds = {}, dateParser = no_date, now_ms = 1700000000000\<rparr>"

definition drained_env :: "unit discover_env" where
  "drained_env = \<lparr>fetchDiscoverPage = (\<lambda>p. Some ([], Some 2)), applyFeedFilters = (\<lambda>xs. xs),
     minFeedSize = 12, suppressedIds = {}, dateParser = no_date, now_ms = 1700000000000\<rparr>"

definition exhausted_payload :: discover_payload where
  "exhausted_payload = \<lparr>w_nextPage = 4, w_allowedPages = 10, w_totalPages = Some 3,
     w_exhausted = True\<rparr>"

definition sample_entry :: discover_entry where
  "sample_entry = \<lparr>nextPage = 2, allowedPages = 10, totalPages = Some 2, exhausted = False,
     updatedAt = 1600000000000, lastAttempt = Some 1600000000000\<rparr>"

definition sample_history :: discover_history where
  "sample_history = [(sample_key, sample_entry)]"

definition endless_env :: "unit discover_env" where
  "endless_env = \<lparr>fetchDiscoverPage = (\<lambda>p. Some ([], None)), applyFeedFilters = (\<lambda>xs. xs),
     minFeedSize = 12, suppressedIds = {}, dateParser = no_date, now_ms = 1700000000000\<rparr>"

text \<open>An upstream of three pages that lists the same movie on each.\<close>

definition steady_env :: "int \<Rightarrow> unit discover_env" where
  "steady_env wanted = \<lparr>fetchDiscoverPage = (\<lambda>p. Some ([Some undated_movie], Some 3)),
     applyFeedFilters = (\<lambda>xs. xs), minFeedSize = wanted, suppressedIds = {},
     dateParser = no_date, now_ms = 1700000000000\<rparr>"

definition unknown_total_payload :: discover_payload where
  "unknown_total_payload = \<lparr>w_nextPage = 2, w_allowedPages = 10, w_totalPages = None,
     w_exhausted = True\<rparr>"

definition cursor_at :: "int \<Rightarrow> int option \<Rightarrow> bool \<Rightarrow> discover_history" where
  "cursor_at p known exh =
     [(sample_key, \<lparr>nextPage = p, allowedPages = 10, totalPages = known, exhausted = exh,
         updatedAt = 1700000000000, lastAttempt = Some 1700000000000\<rparr>)]"

section \<open>Deduplication by id: proofs\<close>

lemma dedupe_run: "dedupeMoviesById l = snd (run_dedupe l)"
  by (simp add: dedupeMoviesById_def run_dedupe_def)

lemma run_dedupe_snoc: "run_dedupe (l @ [e]) = dedupe_step (run_dedupe l) e"
  by (simp add: run_dedupe_def)

lemma step_nokey: "entry_key e = None \<Longrightarrow> dedupe_step (seen, r) e = (seen, r @ [e])"
  by (simp add: dedupe_step_def)

lemma step_fresh:
  "entry_key e = Some k \<Longrightarrow> seen k = None \<Longrightarrow>
   dedupe_step (seen, r) e = (seen(k \<mapsto> (length r, scoreMovieForMerge e)), r @ [e])"
  by (simp add: dedupe_step_def)

lemma step_better:
  "entry_key e = Some k \<Longrightarrow> seen k = Some (i, s) \<Longrightarrow> s < scoreMovieForMerge e \<Longrightarrow>
   dedupe_step (seen, r) e = (seen(k \<mapsto> (i, scoreMovieForMerge e)), r[i := e])"
  by (simp add: dedupe_step_def)

lemma step_keep:
  "entry_key e = Some k \<Longrightarrow> seen k = Some (i, s) \<Longrightarrow> \<not> s < scoreMovieForMerge e \<Longrightarrow>
   dedupe_step (seen, r) e = (seen, r)"
  by (simp add: dedupe_step_def)

lemma step_cases:
  fixes e :: "'a entry" and seen :: "string \<rightharpoonup> nat \<times> nat"
  obtains (nokey) "entry_key e = None"
  | (fresh) k where "entry_key e = Some k" "seen k = None"
  | (better) k i s where "entry_key e = Some k" "seen k = Some (i, s)" "s < scoreMovieForMerge e"
  | (keep) k i s where "entry_key e = Some k" "seen k = Some (i, s)" "\<not> s < scoreMovieForMerge e"
  by (cases "entry_key e"; cases "seen (the (entry_key e))") force+

lemma seen_soundD:
  "seen_sound seen r \<Longrightarrow> seen k = Some (i, s) \<Longrightarrow>
   i < length r \<and> entry_key (r ! i) = Some k \<and> scoreMovieForMerge (r ! i) = s"
  unfolding seen_sound_def by blast

lemma seen_sound_step:
  assumes "seen_sound seen r"
  shows "seen_sound (fst (dedupe_step (seen, r) e)) (snd (dedupe_step (seen, r) e))"
proof (cases rule: step_cases[where e=e and seen=seen])
  case nokey
  have "seen_sound seen (r @ [e])"
    unfolding seen_sound_def
  proof (intro allI impI)
    fix k i s assume "seen k = Some (i, s)"
    from seen_soundD[OF assms this]
    show "i < length (r @ [e]) \<and> entry_key ((r @ [e]) ! i) = Some k \<and>
          scoreMovieForMerge ((r @ [e]) ! i) = s"
      by (simp add: nth_append)
  qed
  then show ?thesis using nokey by (simp add: step_nokey)
next
  case (fresh k)
  have "seen_sound (seen(k \<mapsto> (length r, scoreMovieForMerge e))) (r @ [e])"
    unfolding seen_sound_def
  proof (intro allI impI)
    fix k' i s assume h: "(seen(k \<mapsto> (length r, scoreMovieForMerge e))) k' = Some (i, s)"
    show "i < length (r @ [e]) \<and> entry_key ((r @ [e]) ! i) = Some k' \<and>
          scoreMovieForMerge ((r @ [e]) ! i) = s"
    proof (cases "k' = k")
      case True
      then show ?thesis using h fresh by auto
    next
      case False
      then have "seen k' = Some (i, s)" using h by simp
      from seen_soundD[OF assms this] show ?thesis by (simp add: nth_append)
    qed
  qed
  then show ?thesis using fresh by (simp add: step_fresh)
next
  case (better k i s)
  have il: "i < length r" using seen_soundD[OF assms better(2)] by simp
  have "seen_sound (seen(k \<mapsto> (i, scoreMovieForMerge e))) (r[i := e])"
    unfolding seen_sound_def
  proof (intro allI impI)
    fix k' i' s' assume h: "(seen(k \<mapsto> (i, scoreMovieForMerge e))) k' = Some (i', s')"
    show "i' < length (r[i := e]) \<and> entry_key (r[i := e] ! i') = Some k' \<and>
          scoreMovieForMerge (r[i := e] ! i') = s'"
    proof (cases "k' = k")
      case True
      then show ?thesis using h better il by simp
    next
      case False
      then have s: "seen k' = Some (i', s')" using h by simp
      have "i' \<noteq> i" using seen_soundD[OF assms s] seen_soundD[OF assms better(2)] False by auto
      then show ?thesis using seen_soundD[OF assms s] by simp
    qed
  qed
  then show ?thesis using better by (simp add: step_better)
next
  case (keep k i s)
  then show ?thesis using assms by (simp add: step_keep)
qed

lemma seen_complete_step:
  assumes "seen_sound seen r" "seen_complete seen r"
  shows "seen_complete (fst (dedupe_step (seen, r) e)) (snd (dedupe_step (seen, r) e))"
proof (cases rule: step_cases[where e=e and seen=seen])
  case nokey
  then show ?thesis using assms(2) by (auto simp: step_nokey seen_complete_def nth_append)
next
  case (fresh k)
  then show ?thesis using assms(2)
    by (auto simp: step_fresh seen_complete_def nth_append)
next
  case (better k i s)
  have "i < length r" "entry_key (r ! i) = Some k"
    using assms(1) better(2) by (auto simp: seen_sound_def)
  then show ?thesis using assms(2) better
    by (auto simp: step_better seen_complete_def nth_list_update)
next
  case (keep k i s)
  then show ?thesis using assms by (simp add: step_keep)
qed

lemma seen_covers_step:
  assumes "seen_covers seen l"
  shows "seen_covers (fst (dedupe_step (seen, r) e)) (l @ [e])"
proof (cases rule: step_cases[where e=e and seen=seen])
  case nokey
  then show ?thesis using assms by (auto simp: step_nokey seen_covers_def)
next
  case (fresh k)
  then show ?thesis using assms by (auto simp: step_fresh seen_covers_def)
next
  case (better k i s)
  then show ?thesis using assms
    by (fastforce simp: step_better seen_covers_def)
next
  case (keep k i s)
  then show ?thesis using assms by (auto simp: step_keep seen_covers_def)
qed

lemma result_subset_step:
  assumes "set r \<subseteq> set l"
  shows "set (snd (dedupe_step (seen, r) e)) \<subseteq> insert e (set l)"
proof (cases rule: step_cases[where e=e and seen=seen])
  case (better k i s)
  have "set (r[i := e]) \<subseteq> insert e (set r)" by (rule set_update_subset_insert)
  then show ?thesis using assms better by (auto simp: step_better)
qed (use assms in \<open>auto simp: step_nokey step_fresh step_keep\<close>)

lemma dedupe_inv_run: "dedupe_inv l (run_dedupe l)"
proof (induction l rule: rev_induct)
  case Nil
  show ?case
    by (simp add: dedupe_inv_def run_dedupe_def seen_sound_def seen_complete_def seen_covers_def)
next
  case (snoc x xs)
  obtain seen r where st: "run_dedupe xs = (seen, r)" by (cases "run_dedupe xs")
  show ?case using snoc
    unfolding run_dedupe_snoc st dedupe_inv_def
    by (simp add: seen_sound_step seen_complete_step seen_covers_step result_subset_step)
qed

lemma seen_coversD:
  "seen_covers seen l \<Longrightarrow> e \<in> set l \<Longrightarrow> entry_key e = Some k \<Longrightarrow>
   \<exists>i s. seen k = Some (i, s) \<and> scoreMovieForMerge e \<le> s"
  unfolding seen_covers_def by blast

lemma foldl_covered:
  "seen_covers seen l' \<Longrightarrow>
   foldl dedupe_step (seen, r) l' = (seen, r @ filter (\<lambda>e. entry_key e = None) l')"
proof (induction l' arbitrary: r)
  case Nil
  show ?case by simp
next
  case (Cons e es)
  have cov: "seen_covers seen es" using Cons.prems by (simp add: seen_covers_def)
  show ?case
  proof (cases "entry_key e")
    case None
    then show ?thesis using Cons.IH[OF cov] by (simp add: step_nokey)
  next
    case (Some k)
    then obtain i s where "seen k = Some (i, s)" "scoreMovieForMerge e \<le> s"
      using seen_coversD[OF Cons.prems, of e k] by auto
    then have "dedupe_step (seen, r) e = (seen, r)"
      using Some by (simp add: step_keep)
    then show ?thesis using Cons.IH[OF cov] Some by simp
  qed
qed

lemma dedupe_append_self:
  "dedupeMoviesById (l @ l) = dedupeMoviesById l @ filter (\<lambda>e. entry_key e = None) l"
proof -
  obtain seen r where st: "run_dedupe l = (seen, r)" by (cases "run_dedupe l")
  have "seen_covers seen l" using dedupe_inv_run[of l] st by (simp add: dedupe_inv_def)
  then have "foldl dedupe_step (seen, r) l = (seen, r @ filter (\<lambda>e. entry_key e = None) l)"
    by (rule foldl_covered)
  then have "run_dedupe (l @ l) = (seen, r @ filter (\<lambda>e. entry_key e = None) l)"
    using st by (simp add: run_dedupe_def)
  then show ?thesis using st by (simp add: dedupe_run)
qed

lemma filter_unique_index:
  "i < length xs \<Longrightarrow> P (xs ! i) \<Longrightarrow> (\<forall>j < length xs. P (xs ! j) \<longrightarrow> j = i) \<Longrightarrow>
   filter P xs = [xs ! i]"
proof (induction xs arbitrary: i)
  case Nil
  then show ?case by simp
next
  case (Cons x xs)
  show ?case
  proof (cases i)
    case 0
    have "\<forall>y \<in> set xs. \<not> P y"
    proof
      fix y assume "y \<in> set xs"
      then obtain j where "j < length xs" "xs ! j = y" by (auto simp: in_set_conv_nth)
      then show "\<not> P y" using Cons.prems(3)[rule_format, of "Suc j"] 0 by auto
    qed
    then have "filter P xs = []" by (simp add: filter_empty_conv)
    then show ?thesis using 0 Cons.prems(2) by simp
  next
    case (Suc n)
    have "\<not> P x" using Cons.prems(3)[rule_format, of 0] Suc by auto
    moreover have "filter P xs = [xs ! n]"
    proof (rule Cons.IH)
      show "n < length xs" using Cons.prems(1) Suc by simp
      show "P (xs ! n)" using Cons.prems(2) Suc by simp
      show "\<forall>j<length xs. P (xs ! j) \<longrightarrow> j = n"
        using Cons.prems(3)[rule_format, of "Suc _"] Suc by auto
    qed
    ultimately show ?thesis using Suc by simp
  qed
qed

lemma dedupe_kept:
  assumes "a \<in> set l" "entry_key a = Some k"
  shows "\<exists>w. filter (\<lambda>e. entry_key e = Some k) (dedupeMoviesById l) = [w] \<and> w \<in> set l \<and>
             entry_key w = Some k \<and> scoreMovieForMerge a \<le> scoreMovieForMerge w"
proof -
  obtain seen r where st: "run_dedupe l = (seen, r)" by (cases "run_dedupe l")
  have inv: "seen_sound seen r" "seen_complete seen r" "seen_covers seen l" "set r \<subseteq> set l"
    using dedupe_inv_run[of l] st by (simp_all add: dedupe_inv_def)
  obtain i s where hs: "seen k = Some (i, s)" "scoreMovieForMerge a \<le> s"
    using seen_coversD[OF inv(3) assms] by blast
  note sd = seen_soundD[OF inv(1) hs(1)]
  have uniq: "\<forall>j < length r. entry_key (r ! j) = Some k \<longrightarrow> j = i"
    using inv(2) hs(1) by (auto simp: seen_complete_def)
  have "filter (\<lambda>e. entry_key e = Some k) r = [r ! i]"
    using sd uniq by (intro filter_unique_index) auto
  moreover have "r ! i \<in> set l" using sd inv(4) by auto
  ultimately show ?thesis using sd hs(2) st by (auto simp: dedupe_run)
qed

text \<open>
  Claim C2, as the code has it. Whenever two entries of the list share an id, the
  deduplicated list holds exactly one entry with that id; it is an entry of the input and
  its score is at least the score of both. The score is the weighted count of
  \<open>scoreMovieForMerge\<close>: three points for a poster, two for an overview and one each
  for rating, vote count, release date, critic scores and non-empty director, cast and
  genre lists.
\<close>

theorem dedupe_keeps_highest_score:
  assumes "a \<in> set l" and "b \<in> set l"
    and "entry_key a = Some k" and "entry_key b = Some k"
  shows "(\<exists>w. filter (\<lambda>e. entry_key e = Some k) (dedupeMoviesById l) = [w] \<and> w \<in> set l \<and>
              scoreMovieForMerge a \<le> scoreMovieForMerge w \<and>
              scoreMovieForMerge b \<le> scoreMovieForMerge w) \<and>
         scoreMovieForMerge (Some m) =
           3 * of_bool (truthy_str (poster_path m)) + 2 * of_bool (truthy_str (overview m)) +
           of_bool (vote_average m \<noteq> None) + of_bool (vote_count m \<noteq> None) +
           of_bool (truthy_str (release_date m)) + of_bool (criticScores m) +
           of_bool (nonempty_array (directors m)) + of_bool (nonempty_array (topCast m)) +
           of_bool (nonempty_array (genre_ids m))"
proof
  obtain w where w: "filter (\<lambda>e. entry_key e = Some k) (dedupeMoviesById l) = [w]"
      "w \<in> set l" "scoreMovieForMerge a \<le> scoreMovieForMerge w"
    using dedupe_kept[OF assms(1,3)] by blast
  obtain w' where w': "filter (\<lambda>e. entry_key e = Some k) (dedupeMoviesById l) = [w']"
      "scoreMovieForMerge b \<le> scoreMovieForMerge w'"
    using dedupe_kept[OF assms(2,4)] by blast
  have "w' = w" using w(1) w'(1) by simp
  then show "\<exists>w. filter (\<lambda>e. entry_key e = Some k) (dedupeMoviesById l) = [w] \<and> w \<in> set l \<and>
              scoreMovieForMerge a \<le> scoreMovieForMerge w \<and>
              scoreMovieForMerge b \<le> scoreMovieForMerge w"
    using w w'(2) by blast
next
  show "scoreMovieForMerge (Some m) =
           3 * of_bool (truthy_str (poster_path m)) + 2 * of_bool (truthy_str (overview m)) +
           of_bool (vote_average m \<noteq> None) + of_bool (vote_count m \<noteq> None) +
           of_bool (truthy_str (release_date m)) + of_bool (criticScores m) +
           of_bool (nonempty_array (directors m)) + of_bool (nonempty_array (topCast m)) +
           of_bool (nonempty_array (genre_ids m))"
    by (simp add: scoreMovieForMerge_def Let_def)
qed

lemmas sample_movie_defs = no_movie_def poster_only_def rated_only_def

lemmas dedupe_eval =
  dedupeMoviesById_def dedupe_step_def entry_key_def scoreMovieForMerge_def
  truthy_str_def nonempty_array_def Let_def

theorem dedupe_keeps_highest_score_witness:
  "Some rated_only \<in> set [Some rated_only, Some poster_only] \<and>
   Some poster_only \<in> set [Some rated_only, Some poster_only] \<and>
   entry_key (Some rated_only) = Some ''7'' \<and> entry_key (Some poster_only) = Some ''7'' \<and>
   (\<exists>w. filter (\<lambda>e. entry_key e = Some ''7'')
           (dedupeMoviesById [Some rated_only, Some poster_only]) = [w] \<and>
        w \<in> set [Some rated_only, Some poster_only] \<and>
        scoreMovieForMerge (Some rated_only) \<le> scoreMovieForMerge w \<and>
        scoreMovieForMerge (Some poster_only) \<le> scoreMovieForMerge w)"
proof -
  have k1: "entry_key (Some rated_only) = Some ''7''"
    by (simp add: entry_key_def sample_movie_defs)
  have k2: "entry_key (Some poster_only) = Some ''7''"
    by (simp add: entry_key_def sample_movie_defs)
  have m1: "Some rated_only \<in> set [Some rated_only, Some poster_only]" by simp
  have m2: "Some poster_only \<in> set [Some rated_only, Some poster_only]" by simp
  note inst = dedupe_keeps_highest_score[OF m1 m2 k1 k2, where m = no_movie]
  from conjunct1[OF inst] m1 m2 k1 k2 show ?thesis by blast
qed

text \<open>
  With one point per field the poster-only record scores lower than the record that has
  a rating and a vote count, yet the merge keeps the poster-only record, which arrives
  second and displaces the first.
\<close>

theorem dedupe_plus_one_counterexample:
  "spec_completeness (Some poster_only) < spec_completeness (Some rated_only) \<and>
   dedupeMoviesById [Some rated_only, Some poster_only] = [Some poster_only]"
  by (simp add: spec_completeness_def dedupe_eval sample_movie_defs)

text \<open>
  Claim C9, as the code has it. Entries that are missing or carry no id are never
  deduplicated, so merging a list with itself repeats them; for a list whose entries all
  carry an id the merge of the list with itself is the merge of the list.
\<close>

theorem dedupe_self_merge:
  assumes "\<forall>e \<in> set l. entry_key e \<noteq> None"
  shows "dedupeMoviesById (l @ l) = dedupeMoviesById l \<and>
         length (dedupeMoviesById (l @ l)) = length (dedupeMoviesById l) \<and>
         map scoreMovieForMerge (dedupeMoviesById (l @ l)) =
           map scoreMovieForMerge (dedupeMoviesById l)"
proof -
  have "filter (\<lambda>e. entry_key e = None) l = []"
    using assms by (simp add: filter_empty_conv)
  then have "dedupeMoviesById (l @ l) = dedupeMoviesById l"
    by (simp add: dedupe_append_self)
  then show ?thesis by simp
qed

theorem dedupe_self_merge_witness:
  "entry_key (Some rated_only) \<noteq> None \<and> entry_key (Some poster_only) \<noteq> None \<and>
   dedupeMoviesById ([Some rated_only, Some poster_only] @ [Some rated_only, Some poster_only])
     = dedupeMoviesById [Some rated_only, Some poster_only]"
proof -
  have h: "\<forall>e \<in> set [Some rated_only, Some poster_only]. entry_key e \<noteq> None"
    by (simp add: entry_key_def sample_movie_defs)
  from dedupe_self_merge[OF h] show ?thesis using h by simp
qed

theorem dedupe_self_merge_counterexample:
  "dedupeMoviesById ([Some no_movie] @ [Some no_movie]) \<noteq> dedupeMoviesById [Some no_movie] \<and>
   length (dedupeMoviesById ([Some no_movie] @ [Some no_movie])) = 2 \<and>
   length (dedupeMoviesById [Some no_movie]) = 1"
  by (simp add: dedupe_eval no_movie_def)

section \<open>Candidate selection and priority ordering: proofs\<close>

lemma thresholds_eval: "thresholds = [(7, 50), (13/2, 25), (6, 10)]"
  by (simp add: thresholds_def MIN_VOTE_AVERAGE_def MIN_VOTE_COUNT_def)

lemma select_char:
  "selectPriorityCandidates movies =
     (let t1 = filter (\<lambda>e. meetsQualityThreshold e 7 50) movies;
          t2 = filter (\<lambda>e. meetsQualityThreshold e (13/2) 25) movies;
          t3 = filter (\<lambda>e. meetsQualityThreshold e 6 10) movies
      in if length t1 \<ge> 12 then t1
         else if length t2 \<ge> 12 then t2
         else if length t3 \<ge> 12 then t3
         else if t1 \<noteq> [] then t1
         else if t2 \<noteq> [] then t2
         else if t3 \<noteq> [] then t3
         else filter has_numeric_rating_and_votes movies)"
  by (cases "movies = []")
     (simp_all add: selectPriorityCandidates_def thresholds_eval MIN_PRIORITY_RESULTS_def Let_def)

lemma meets_values:
  "meetsQualityThreshold e a v \<Longrightarrow> 0 < a \<Longrightarrow> 0 < v \<Longrightarrow>
   \<exists>m x y. e = Some m \<and> getVoteAverageValue e = Some x \<and> getVoteCountValue e = Some y"
  by (auto simp: meetsQualityThreshold_def getVoteAverageValue_def getVoteCountValue_def Let_def
      split: option.splits jsnum.splits)

lemma numeric_values:
  "has_numeric_rating_and_votes e \<Longrightarrow>
   \<exists>m x y. e = Some m \<and> getVoteAverageValue e = Some x \<and> getVoteCountValue e = Some y"
  by (auto simp: has_numeric_rating_and_votes_def getVoteAverageValue_def getVoteCountValue_def
      nullish_or_def split: option.splits jsnum.splits)

lemma candidate_props:
  assumes "e \<in> set (selectPriorityCandidates movies)"
  shows "e \<in> set movies \<and>
         (\<exists>m x y. e = Some m \<and> getVoteAverageValue e = Some x \<and> getVoteCountValue e = Some y)"
proof -
  consider a v where "e \<in> set (filter (\<lambda>e. meetsQualityThreshold e a v) movies)" "0 < a" "0 < v"
    | "e \<in> set (filter has_numeric_rating_and_votes movies)"
    using assms unfolding select_char Let_def by (auto split: if_splits)
  then show ?thesis
  proof cases
    case 1
    then show ?thesis using meets_values[of e a v] by auto
  next
    case 2
    then show ?thesis using numeric_values[of e] by auto
  qed
qed

lemma candidates_length: "length (selectPriorityCandidates movies) \<le> length movies"
  unfolding select_char Let_def by simp

lemma maxVotes_ge1: "1 \<le> maxVotes_of cands"
  unfolding maxVotes_of_def by (induction cands) auto

lemma foldr_max_Max:
  "xs \<noteq> [] \<Longrightarrow> foldr max xs (b::real) = max b (Max (set xs))"
proof (induction xs)
  case Nil
  then show ?case by simp
next
  case (Cons x xs)
  show ?case
  proof (cases "xs = []")
    case True
    then show ?thesis by (simp add: max.commute)
  next
    case False
    then show ?thesis using Cons.IH by (simp add: max.left_commute)
  qed
qed

lemma clamped_votes_raw: "clamped_votes e = max 0 (raw_votes e)"
  by (simp add: clamped_votes_def raw_votes_def)

lemma Max_map_max0:
  assumes "xs \<noteq> []"
  shows "Max (set (map (\<lambda>x. max (0::real) (f x)) xs)) = max 0 (Max (set (map f xs)))"
proof -
  have "Max ((\<lambda>y. max 0 y) ` set (map f xs)) = max 0 (Max (set (map f xs)))"
    using assms by (intro mono_Max_commute[symmetric]) (auto simp: mono_def)
  then show ?thesis by (simp add: image_image)
qed

lemma maxVotes_of_eq:
  assumes "cands \<noteq> []"
  shows "maxVotes_of cands = max 1 (maxVotesInSet cands)"
proof -
  have "maxVotes_of cands = max 1 (Max (set (map clamped_votes cands)))"
    unfolding maxVotes_of_def using assms by (simp add: foldr_max_Max)
  also have "map clamped_votes cands = map (\<lambda>e. max 0 (raw_votes e)) cands"
    by (simp add: clamped_votes_raw)
  also have "Max (set \<dots>) = max 0 (Max (set (map raw_votes cands)))"
    using assms by (rule Max_map_max0)
  finally show ?thesis by (simp add: maxVotesInSet_def)
qed

lemma voteVolume_nonneg:
  assumes "0 \<le> v" "1 \<le> M"
  shows "0 \<le> log 10 (v + 1) / log 10 (M + 1)"
proof -
  have "0 \<le> log 10 (v + 1)" using assms(1) by simp
  moreover have "0 < log 10 (M + 1)" using assms(2) by simp
  ultimately show ?thesis by simp
qed

lemma priority_of_spec:
  assumes "1 \<le> M"
  shows "priority_of parseDate now M m =
         spec_score (rating01 (Some m)) (max 0 (raw_votes (Some m))) M
           (release_age parseDate now (Some m))"
proof -
  have v0: "0 \<le> clamped_votes (Some m)" by (simp add: clamped_votes_def)
  have vol: "max 0 (log 10 (clamped_votes (Some m) + 1) / log 10 (M + 1)) =
             log 10 (clamped_votes (Some m) + 1) / log 10 (M + 1)"
    using voteVolume_nonneg[OF v0 assms] by simp
  show ?thesis
    unfolding priority_of_def Let_def vol
    by (simp add: spec_score_def spec_confidenceAdjustedRating_def
        spec_normalizedLogVoteVolume_def rating01_def clamped_votes_raw
        spec_recency_def release_age_def split: option.splits)
qed

lemma sorted_desc:
  "sorted_wrt (\<lambda>a b. priority_or_0 b \<le> priority_or_0 a)
     (sort_key (\<lambda>e. - priority_or_0 e) xs)"
proof -
  have "sorted (map (\<lambda>e. - priority_or_0 e) (sort_key (\<lambda>e. - priority_or_0 e) xs))"
    by (rule sorted_sort_key)
  then show ?thesis by (simp add: sorted_map)
qed

lemma apply_char:
  assumes "selectPriorityCandidates movies = cands" "cands \<noteq> []"
  shows "applyPriorityOrdering parseDate now movies =
         Inr (sort_key (\<lambda>e. - priority_or_0 e)
               (map (\<lambda>e. with_priority (priority_of parseDate now (maxVotes_of cands) (the e)) e) cands))"
proof -
  have nn: "None \<notin> set cands" using candidate_props[of None movies] assms(1) by auto
  have ne: "movies \<noteq> []" using assms by (auto simp: selectPriorityCandidates_def)
  have "map (map_option (\<lambda>m. m\<lparr>priority := Some (priority_of parseDate now (maxVotes_of cands) m)\<rparr>)) cands
        = map (\<lambda>e. with_priority (priority_of parseDate now (maxVotes_of cands) (the e)) e) cands"
  proof (rule map_cong[OF refl])
    fix e assume "e \<in> set cands"
    then have "e \<noteq> None" using nn by metis
    then obtain m where "e = Some m" by auto
    then show "map_option (\<lambda>m. m\<lparr>priority := Some (priority_of parseDate now (maxVotes_of cands) m)\<rparr>) e
        = with_priority (priority_of parseDate now (maxVotes_of cands) (the e)) e"
      by (simp add: with_priority_def)
  qed
  then show ?thesis
    unfolding applyPriorityOrdering_def Let_def assms(1)
    using assms(2) nn ne by (simp only: if_False simp_thms)
qed

lemmas sample2_defs = no_movie_def good_movie_def weak_movie_def unrated_movie_def
  half_vote_movie_def fresh_movie_def undated_movie_def

lemmas ranking_eval = meetsQualityThreshold_def has_numeric_rating_and_votes_def
  nullish_or_def getVoteAverageValue_def getVoteCountValue_def

lemma apply_total: "\<exists>out. applyPriorityOrdering pd now movies = Inr out"
proof (cases "selectPriorityCandidates movies = []")
  case True
  then show ?thesis by (simp add: applyPriorityOrdering_def)
next
  case False
  from apply_char[OF refl False] show ?thesis by blast
qed

lemma apply_spec_char:
  assumes "selectPriorityCandidates movies = cands" and "cands \<noteq> []"
  shows "applyPriorityOrdering parseDate now movies =
        Inr (sort_key (\<lambda>e. - priority_or_0 e)
               (map (\<lambda>e. with_priority
                       (spec_score (rating01 e) (max 0 (raw_votes e))
                          (max 1 (maxVotesInSet cands)) (release_age parseDate now e)) e)
                  cands))"
proof -
  have M: "maxVotes_of cands = max 1 (maxVotesInSet cands)"
    using assms(2) by (rule maxVotes_of_eq)
  have eq: "map (\<lambda>e. with_priority (priority_of parseDate now (maxVotes_of cands) (the e)) e) cands =
        map (\<lambda>e. with_priority
               (spec_score (rating01 e) (max 0 (raw_votes e))
                  (max 1 (maxVotesInSet cands)) (release_age parseDate now e)) e) cands"
  proof (rule map_cong[OF refl])
    fix e assume "e \<in> set cands"
    then obtain m where e: "e = Some m"
      using candidate_props[of e movies] assms(1) by auto
    show "with_priority (priority_of parseDate now (maxVotes_of cands) (the e)) e =
          with_priority (spec_score (rating01 e) (max 0 (raw_votes e))
                  (max 1 (maxVotesInSet cands)) (release_age parseDate now e)) e"
      unfolding e M by (simp add: priority_of_spec)
  qed
  show ?thesis
    using apply_char[OF assms, of parseDate now] unfolding eq .
qed

text \<open>
  Claim C1, as the code has it. When candidate selection yields a non-empty list, the
  priority ordering succeeds and returns exactly the candidates, each with the composite
  score \<open>0.3 * confidenceAdjustedRating + 0.5 * sqrt(normalizedLogVoteVolume) +
  0.2 * recency\<close> attached as its priority, in a stable sort by descending score. The
  rating enters clamped to 0..10 and divided by 10; the vote count enters clamped below
  at 0; and the vote volume is normalised by the larger of 1 and the largest vote count
  among the candidates. Numbers are reals here: the rounding of IEEE doubles is outside
  the model.
\<close>

theorem priority_ordering_score:
  assumes "selectPriorityCandidates movies = cands" and "cands \<noteq> []"
  shows "\<exists>out. applyPriorityOrdering parseDate now movies = Inr out \<and>
           out = sort_key (\<lambda>e. - priority_or_0 e)
                   (map (\<lambda>e. with_priority
                           (spec_score (rating01 e) (max 0 (raw_votes e))
                              (max 1 (maxVotesInSet cands)) (release_age parseDate now e)) e)
                      cands) \<and>
           sorted_wrt (\<lambda>a b. priority_or_0 b \<le> priority_or_0 a) out"
  using apply_spec_char[OF assms, of parseDate now] sorted_desc by simp

theorem priority_ordering_score_witness:
  "selectPriorityCandidates [Some undated_movie, Some fresh_movie]
     = [Some undated_movie, Some fresh_movie] \<and>
   applyPriorityOrdering sample_parseDate sample_now [Some undated_movie, Some fresh_movie]
     = Inr [Some (fresh_movie\<lparr>priority := Some (19/50)\<rparr>),
            Some (undated_movie\<lparr>priority := Some (7/25)\<rparr>)]"
proof -
  have c: "selectPriorityCandidates [Some undated_movie, Some fresh_movie]
     = [Some undated_movie, Some fresh_movie]"
    by (simp add: select_char ranking_eval sample2_defs)
  have n: "[Some undated_movie, Some fresh_movie] \<noteq> []" by simp
  have mv: "maxVotesInSet [Some undated_movie, Some fresh_movie] = 0"
    by (simp add: maxVotesInSet_def raw_votes_def ranking_eval sample2_defs)
  have s1: "spec_score (rating01 (Some undated_movie)) (max 0 (raw_votes (Some undated_movie))) 1
              (release_age sample_parseDate sample_now (Some undated_movie)) = 7/25"
    by (simp add: spec_score_def spec_confidenceAdjustedRating_def
        spec_normalizedLogVoteVolume_def spec_recency_def rating01_def raw_votes_def
        release_age_def ranking_eval sample2_defs)
  have s2: "spec_score (rating01 (Some fresh_movie)) (max 0 (raw_votes (Some fresh_movie))) 1
              (release_age sample_parseDate sample_now (Some fresh_movie)) = 19/50"
    by (simp add: spec_score_def spec_confidenceAdjustedRating_def
        spec_normalizedLogVoteVolume_def spec_recency_def rating01_def raw_votes_def
        release_age_def ranking_eval sample2_defs sample_parseDate_def sample_now_def)
  from priority_ordering_score[OF c n, of sample_parseDate sample_now]
  show ?thesis
    using c by (simp add: mv s1 s2 with_priority_def priority_or_0_def)
qed

lemma log_ratio_not_1: "log 10 (3/2) / log 10 2 \<noteq> (1::real)"
proof
  assume h: "log 10 (3/2) / log 10 2 = (1::real)"
  have pos: "0 < log 10 (2::real)" by simp
  have lt: "log 10 (3/2) < log 10 (2::real)"
    by (subst log_less_cancel_iff) simp_all
  have "log 10 (3/2) = log 10 (2::real)"
  proof -
    have nz: "log 10 (2::real) \<noteq> 0" using pos by linarith
    have "log 10 (3/2) = (log 10 (3/2) / log 10 2) * log 10 (2::real)"
      using nz by simp
    then show ?thesis unfolding h by (simp only: mult_1)
  qed
  then show False using lt by linarith
qed

lemma log_self_ratio: "log 10 (1/2 + 1) / log 10 (1/2 + 1) = (1::real)"
proof -
  have "0 < log 10 (1/2 + 1::real)" by simp
  then have "log 10 (1/2 + 1::real) \<noteq> 0" by linarith
  then show ?thesis by (rule divide_self)
qed

text \<open>
  The normalisation by \<open>maxVotesInSet + 1\<close> as the claim states it fails for a candidate
  set whose largest vote count is below one: a single candidate with half a vote gets
  volume \<open>log10(1.5) / log10(2)\<close> from the code and \<open>1\<close> from the stated formula.
  (For a set whose vote counts are all zero the stated formula is the undefined quotient
  \<open>0 / 0\<close>, where the code yields volume \<open>0\<close>.)
\<close>

theorem priority_literal_formula_counterexample:
  "selectPriorityCandidates [Some half_vote_movie] = [Some half_vote_movie] \<and>
   maxVotesInSet [Some half_vote_movie] = 1/2 \<and>
   applyPriorityOrdering no_date 0 [Some half_vote_movie] \<noteq>
     Inr [with_priority
            (spec_score (rating01 (Some half_vote_movie)) (raw_votes (Some half_vote_movie))
               (maxVotesInSet [Some half_vote_movie])
               (release_age no_date 0 (Some half_vote_movie)))
            (Some half_vote_movie)]"
proof -
  have c: "selectPriorityCandidates [Some half_vote_movie] = [Some half_vote_movie]"
    by (simp add: select_char ranking_eval sample2_defs)
  have mv: "maxVotesInSet [Some half_vote_movie] = 1/2"
    by (simp add: maxVotesInSet_def raw_votes_def ranking_eval sample2_defs)
  have rv: "raw_votes (Some half_vote_movie) = 1/2"
    by (simp add: raw_votes_def ranking_eval sample2_defs)
  have lit: "spec_normalizedLogVoteVolume (1/2) (1/2) = 1"
    unfolding spec_normalizedLogVoteVolume_def by (rule log_self_ratio)
  have code: "spec_normalizedLogVoteVolume (1/2) 1 = log 10 (3/2) / log 10 2"
    by (simp add: spec_normalizedLogVoteVolume_def)
  have ne: "sqrt (log 10 (3/2) / log 10 2) \<noteq> 1"
    using log_ratio_not_1 by simp
  have out: "applyPriorityOrdering no_date 0 [Some half_vote_movie] =
     Inr [with_priority
            (spec_score (rating01 (Some half_vote_movie)) (1/2) 1
               (release_age no_date 0 (Some half_vote_movie)))
            (Some half_vote_movie)]"
    using apply_spec_char[OF c, of no_date 0] by (simp add: mv rv)
  have "spec_score (rating01 (Some half_vote_movie)) (1/2) 1
               (release_age no_date 0 (Some half_vote_movie)) \<noteq>
        spec_score (rating01 (Some half_vote_movie)) (1/2) (1/2)
               (release_age no_date 0 (Some half_vote_movie))"
    unfolding spec_score_def lit code using ne by simp
  moreover have "x = y" if "half_vote_movie\<lparr>priority := Some x\<rparr> = half_vote_movie\<lparr>priority := Some y\<rparr>"
    for x y using arg_cong[OF that, of priority] by simp
  ultimately show ?thesis unfolding out mv rv using c
    by (auto simp: with_priority_def)
qed

text \<open>
  Claim C3, as the code has it. The three tiers are tried in order and the first that
  reaches twelve matches is returned. When none does, the result is the first tier that
  matched anything at all (\<open>bestFallback\<close>), and only when no tier matched anything is
  it every item whose \<open>vote_average\<close> and \<open>vote_count\<close> are finite numbers.
\<close>

theorem select_candidates_tiers:
  "selectPriorityCandidates movies =
     (let t1 = filter (\<lambda>e. meetsQualityThreshold e 7 50) movies;
          t2 = filter (\<lambda>e. meetsQualityThreshold e 6.5 25) movies;
          t3 = filter (\<lambda>e. meetsQualityThreshold e 6 10) movies
      in if length t1 \<ge> 12 then t1
         else if length t2 \<ge> 12 then t2
         else if length t3 \<ge> 12 then t3
         else if t1 \<noteq> [] then t1
         else if t2 \<noteq> [] then t2
         else if t3 \<noteq> [] then t3
         else filter has_numeric_rating_and_votes movies)"
  using select_char[of movies] by simp

text \<open>
  One item passes the strictest tier and another has numbers below every tier: the
  code returns the first alone, while the claim's fallback would return both.
\<close>

theorem select_candidates_counterexample:
  "selectPriorityCandidates [Some good_movie, Some weak_movie] = [Some good_movie] \<and>
   spec_selectCandidates [Some good_movie, Some weak_movie]
     = [Some good_movie, Some weak_movie]"
  by (simp add: select_char spec_selectCandidates_def ranking_eval sample2_defs)

lemma with_priority_update: "with_priority p (Some m) = Some (m\<lparr>priority := Some p\<rparr>)"
  by (simp add: with_priority_def)

lemma vote_values_with_priority:
  "getVoteAverageValue (with_priority p e) = getVoteAverageValue e"
  "getVoteCountValue (with_priority p e) = getVoteCountValue e"
  by (cases e; simp add: with_priority_def getVoteAverageValue_def getVoteCountValue_def)+

text \<open>
  Claim C10. The ranking never fails, never returns more items than it was given, and
  every item it returns is an item of the input with the \<open>__priority\<close> property set,
  whose rating and vote count are finite numbers. The closed instance after it shows an
  input of two items ranked to one, the item without numbers being dropped.
\<close>

theorem ranking_filters_input:
  fixes movies :: "'a entry list"
  shows "\<exists>out. applyPriorityOrdering parseDate now movies = Inr out \<and>
         length out \<le> length movies \<and>
         (\<forall>x \<in> set out. \<exists>m p. Some m \<in> set movies \<and> x = Some (m\<lparr>priority := Some p\<rparr>) \<and>
              getVoteAverageValue (Some m) \<noteq> None \<and> getVoteCountValue (Some m) \<noteq> None)"
proof (cases "selectPriorityCandidates movies = []")
  case True
  then show ?thesis by (simp add: applyPriorityOrdering_def)
next
  case False
  define cands where "cands = selectPriorityCandidates movies"
  define f where "f = (\<lambda>e :: 'a entry. with_priority
                       (spec_score (rating01 e) (max 0 (raw_votes e))
                          (max 1 (maxVotesInSet cands)) (release_age parseDate now e)) e)"
  have out: "applyPriorityOrdering parseDate now movies =
             Inr (sort_key (\<lambda>e. - priority_or_0 e) (map f cands))"
    using apply_spec_char[OF cands_def[symmetric], of parseDate now] False
    by (simp add: cands_def f_def)
  have len: "length (sort_key (\<lambda>e. - priority_or_0 e) (map f cands)) \<le> length movies"
    using candidates_length[of movies] by (simp add: cands_def)
  have mem: "\<exists>m p. Some m \<in> set movies \<and> x = Some (m\<lparr>priority := Some p\<rparr>) \<and>
              getVoteAverageValue (Some m) \<noteq> None \<and> getVoteCountValue (Some m) \<noteq> None"
    if "x \<in> set (sort_key (\<lambda>e. - priority_or_0 e) (map f cands))" for x
  proof -
    from that obtain e where e: "e \<in> set cands" "x = f e" by auto
    from candidate_props[of e movies] e(1) obtain m a v where
      m: "e \<in> set movies" "e = Some m" "getVoteAverageValue e = Some a"
         "getVoteCountValue e = Some v"
      by (auto simp: cands_def)
    show ?thesis using m e(2) by (auto simp: f_def with_priority_update)
  qed
  show ?thesis unfolding out using len mem by blast
qed

theorem ranking_filters_input_witness:
  "\<exists>out. applyPriorityOrdering no_date 0 [Some good_movie, Some unrated_movie] = Inr out \<and>
         length out \<le> length [Some good_movie, Some unrated_movie] \<and>
         length out = 1 \<and> Some unrated_movie \<notin> set out"
proof -
  have c: "selectPriorityCandidates [Some good_movie, Some unrated_movie] = [Some good_movie]"
    by (simp add: select_char ranking_eval sample2_defs)
  have "unrated_movie \<noteq> good_movie\<lparr>priority := p\<rparr>" for p
    by (simp add: sample2_defs)
  then have s: "applyPriorityOrdering no_date 0 [Some good_movie, Some unrated_movie] = Inr out
     \<Longrightarrow> length out = 1 \<and> Some unrated_movie \<notin> set out" for out
    using apply_char[OF c, of no_date 0] by (auto simp: with_priority_def)
  from ranking_filters_input[of no_date 0 "[Some good_movie, Some unrated_movie]"]
  show ?thesis using s by blast
qed

section \<open>Cache keys and time to live: proofs\<close>

lemma mset_insert_by: "mset (insert_by cmp x ys) = add_mset x (mset ys)"
  by (induction ys) auto

lemma mset_array_sort: "mset (array_sort cmp xs) = mset xs"
  unfolding array_sort_def by (induction xs) (auto simp: mset_insert_by)

lemma sorted_insert_by:
  assumes "orders_apart cmp A" and "x \<in> A" and "set ys \<subseteq> A"
    and "sorted_wrt (\<lambda>a b. cmp a b \<le> 0) ys"
  shows "sorted_wrt (\<lambda>a b. cmp a b \<le> 0) (insert_by cmp x ys)"
  using assms(3,4)
proof (induction ys)
  case Nil
  show ?case by simp
next
  case (Cons y ys)
  have tot: "cmp x y \<le> 0 \<or> cmp y x \<le> 0"
    using assms(1,2) Cons.prems(1) by (auto simp: orders_apart_def)
  have tr: "cmp a b \<le> 0 \<Longrightarrow> cmp b c \<le> 0 \<Longrightarrow> cmp a c \<le> 0"
    if "a \<in> A" "b \<in> A" "c \<in> A" for a b c
    using assms(1) that unfolding orders_apart_def by blast
  show ?case
  proof (cases "cmp x y \<le> 0")
    case True
    have "\<forall>z \<in> set ys. cmp x z \<le> 0"
    proof
      fix z assume z: "z \<in> set ys"
      then have "cmp y z \<le> 0" using Cons.prems(2) by simp
      then show "cmp x z \<le> 0"
        using tr[of x y z] True assms(2) Cons.prems(1) z by auto
    qed
    then show ?thesis using True Cons.prems(2) by simp
  next
    case False
    then have yx: "cmp y x \<le> 0" using tot by simp
    have "sorted_wrt (\<lambda>a b. cmp a b \<le> 0) (insert_by cmp x ys)"
      using Cons.IH Cons.prems by simp
    then show ?thesis using False yx Cons.prems(2) by (simp add: set_insert_by)
  qed
qed

lemma sorted_array_sort:
  assumes "orders_apart cmp A" and "set xs \<subseteq> A"
  shows "sorted_wrt (\<lambda>a b. cmp a b \<le> 0) (array_sort cmp xs)"
  using assms(2)
proof (induction xs)
  case Nil
  show ?case by (simp add: array_sort_def)
next
  case (Cons x xs)
  have s: "set (array_sort cmp xs) \<subseteq> A"
    using Cons.prems by (simp add: set_array_sort)
  have "sorted_wrt (\<lambda>a b. cmp a b \<le> 0) (insert_by cmp x (array_sort cmp xs))"
    using Cons.prems by (intro sorted_insert_by[OF assms(1) _ s] Cons.IH) auto
  then show ?case by (simp add: array_sort_def)
qed

lemma sorted_wrt_unique:
  assumes "sorted_wrt R xs" and "sorted_wrt R ys" and "mset xs = mset ys"
    and "\<And>a b. a \<in> set xs \<Longrightarrow> b \<in> set xs \<Longrightarrow> R a b \<Longrightarrow> R b a \<Longrightarrow> a = b"
  shows "xs = ys"
  using assms
proof (induction xs arbitrary: ys)
  case Nil
  then show ?case by simp
next
  case (Cons x xs)
  then obtain y ys' where ys: "ys = y # ys'" by (cases ys) auto
  have sets: "set (x # xs) = set (y # ys')"
    using Cons.prems(3) ys by (metis set_mset_mset)
  have "x = y"
  proof (rule ccontr)
    assume ne: "x \<noteq> y"
    then have in1: "x \<in> set ys'" and in2: "y \<in> set xs" using sets by auto
    then have "R y x" "R x y" using Cons.prems(1,2) ys by auto
    moreover have "x \<in> set (x # xs)" "y \<in> set (x # xs)" using in2 by simp_all
    ultimately have "x = y" using Cons.prems(4) by blast
    then show False using ne by simp
  qed
  moreover have "xs = ys'"
  proof (rule Cons.IH)
    show "sorted_wrt R xs" using Cons.prems(1) by simp
    show "sorted_wrt R ys'" using Cons.prems(2) ys by simp
    show "mset xs = mset ys'" using Cons.prems(3) ys \<open>x = y\<close> by simp
    show "\<And>a b. a \<in> set xs \<Longrightarrow> b \<in> set xs \<Longrightarrow> R a b \<Longrightarrow> R b a \<Longrightarrow> a = b"
      using Cons.prems(4) by simp
  qed
  ultimately show ?case using ys by simp
qed

lemma array_sort_perm:
  assumes "orders_apart cmp (set xs)" and "mset xs = mset ys"
  shows "array_sort cmp xs = array_sort cmp ys"
proof (rule sorted_wrt_unique[where R = "\<lambda>a b. cmp a b \<le> 0"])
  have se: "set ys = set xs" using assms(2) by (metis set_mset_mset)
  show "sorted_wrt (\<lambda>a b. cmp a b \<le> 0) (array_sort cmp xs)"
    using assms(1) by (rule sorted_array_sort) simp
  show "sorted_wrt (\<lambda>a b. cmp a b \<le> 0) (array_sort cmp ys)"
    using assms(1) by (rule sorted_array_sort) (simp add: se)
  show "mset (array_sort cmp xs) = mset (array_sort cmp ys)"
    using assms(2) by (simp add: mset_array_sort)
  fix a b assume "a \<in> set (array_sort cmp xs)" "b \<in> set (array_sort cmp xs)"
    "cmp a b \<le> 0" "cmp b a \<le> 0"
  moreover have "set (array_sort cmp xs) = set xs" by (rule set_array_sort)
  ultimately show "a = b" using assms(1) unfolding orders_apart_def by blast
qed

text \<open>Sorting the entries of an object by key, and the entries of a request.\<close>

lemma key_order_apart:
  assumes "orders_apart cmp (fst ` set es)" and "distinct (map fst es)"
  shows "orders_apart (\<lambda>a b. cmp (fst a) (fst b)) (set es)"
proof -
  have inj: "a = b" if "a \<in> set es" "b \<in> set es" "fst a = fst b" for a b
    using assms(2) that by (meson distinct_map inj_onD)
  show ?thesis
    unfolding orders_apart_def
  proof (intro conjI ballI impI)
    fix a b assume "a \<in> set es" "b \<in> set es"
    then show "cmp (fst a) (fst b) \<le> 0 \<or> cmp (fst b) (fst a) \<le> 0"
      using assms(1) unfolding orders_apart_def by (meson imageI)
  next
    fix a b c assume "a \<in> set es" "b \<in> set es" "c \<in> set es"
      "cmp (fst a) (fst b) \<le> 0" "cmp (fst b) (fst c) \<le> 0"
    then show "cmp (fst a) (fst c) \<le> 0"
      using assms(1) unfolding orders_apart_def by (meson imageI)
  next
    fix a b assume ab: "a \<in> set es" "b \<in> set es"
      "cmp (fst a) (fst b) \<le> 0" "cmp (fst b) (fst a) \<le> 0"
    then have "fst a = fst b"
      using assms(1) unfolding orders_apart_def by (meson imageI)
    then show "a = b" using inj ab(1,2) by blast
  qed
qed

lemma serialize_object_perm:
  assumes "orders_apart cmp (fst ` set es)" and "distinct (map fst es)" and "mset es = mset es'"
  shows "serializePart cmp (PObj es) = serializePart cmp (PObj es')"
  using array_sort_perm[OF key_order_apart[OF assms(1,2)] assms(3)] by simp


lemma param_order_apart:
  assumes "orders_apart cmp (fst ` set fs \<union> snd ` set fs)"
  shows "orders_apart (param_compare cmp) (set fs)"
proof -
  let ?S = "fst ` set fs \<union> snd ` set fs"
  have mem: "fst a \<in> ?S" "snd a \<in> ?S" if "a \<in> set fs" for a using that by auto
  have tot: "cmp s t \<le> 0 \<or> cmp t s \<le> 0" if "s \<in> ?S" "t \<in> ?S" for s t
    using assms that unfolding orders_apart_def by blast
  have tr: "cmp s u \<le> 0" if "s \<in> ?S" "t \<in> ?S" "u \<in> ?S" "cmp s t \<le> 0" "cmp t u \<le> 0" for s t u
    using assms that unfolding orders_apart_def by blast
  have anti: "s = t" if "s \<in> ?S" "t \<in> ?S" "cmp s t \<le> 0" "cmp t s \<le> 0" for s t
    using assms that unfolding orders_apart_def by blast
  show ?thesis
    unfolding orders_apart_def
  proof (intro conjI ballI impI)
    fix a b assume "a \<in> set fs" "b \<in> set fs"
    then show "param_compare cmp a b \<le> 0 \<or> param_compare cmp b a \<le> 0"
      using tot[of "fst a" "fst b"] tot[of "snd a" "snd b"] mem
      by (auto simp: param_compare_def)
  next
    fix a b assume ab: "a \<in> set fs" "b \<in> set fs"
      "param_compare cmp a b \<le> 0" "param_compare cmp b a \<le> 0"
    show "a = b"
    proof (cases "fst a = fst b")
      case True
      then have "snd a = snd b"
        using ab anti[of "snd a" "snd b"] mem by (auto simp: param_compare_def)
      then show ?thesis using True by (simp add: prod_eq_iff)
    next
      case False
      then have "fst a = fst b"
        using ab anti[of "fst a" "fst b"] mem by (auto simp: param_compare_def)
      then show ?thesis using False by simp
    qed
  next
    fix a b c assume abc: "a \<in> set fs" "b \<in> set fs" "c \<in> set fs"
      "param_compare cmp a b \<le> 0" "param_compare cmp b c \<le> 0"
    note m = mem[OF abc(1)] mem[OF abc(2)] mem[OF abc(3)]
    show "param_compare cmp a c \<le> 0"
    proof (cases "fst a = fst b")
      case ab: True
      show ?thesis
      proof (cases "fst b = fst c")
        case True
        then show ?thesis
          using ab abc(4,5) tr[of "snd a" "snd b" "snd c"] m by (simp add: param_compare_def)
      next
        case False
        then show ?thesis using ab abc(5) by (simp add: param_compare_def)
      qed
    next
      case ab: False
      show ?thesis
      proof (cases "fst b = fst c")
        case True
        then show ?thesis using ab abc(4) by (simp add: param_compare_def)
      next
        case False
        have k: "cmp (fst a) (fst b) \<le> 0" "cmp (fst b) (fst c) \<le> 0"
          using ab False abc(4,5) by (simp_all add: param_compare_def)
        have ac: "cmp (fst a) (fst c) \<le> 0" using tr[OF m(1,3,5) k] .
        have "fst a \<noteq> fst c"
        proof
          assume e: "fst a = fst c"
          then have "cmp (fst b) (fst a) \<le> 0" using k(2) by simp
          then have "fst a = fst b" using anti[OF m(1,3) k(1)] by simp
          then show False using ab by simp
        qed
        then show ?thesis using ac by (simp add: param_compare_def)
      qed
    qed
  qed
qed

lemma normalize_params_perm:
  assumes "orders_apart cmp (fst ` set (without_api_key ps) \<union> snd ` set (without_api_key ps))"
    and "mset (without_api_key ps) = mset (without_api_key ps')"
  shows "normalizeTmdbParams cmp (Some ps) = normalizeTmdbParams cmp (Some ps')"
  using array_sort_perm[OF param_order_apart[OF assms(1)] assms(2)]
  by (simp add: normalizeTmdbParams_def without_api_key_def)

lemma byte_compare_orders: "orders_apart byte_compare A"
  unfolding orders_apart_def byte_compare_def by (auto split: if_splits)

text \<open>
  Claim C4, as the code has it. Let \<open>localeCompare\<close> order the strings involved
  consistently and tell them apart. Then an object given as a key part serialises, and
  hence keys, the same whatever the order of its properties, and two upstream parameter
  sets whose entries other than \<open>api_key\<close> agree as multisets derive the same key.
  Whatever \<open>localeCompare\<close> does, two parameter sets that differ only in their
  \<open>api_key\<close> entries derive the same key, and adding a credential changes nothing.
\<close>

theorem cache_key_determinism:
  fixes es es' :: "(string \<times> part) list" and ps ps' :: "(string \<times> string) list"
  shows "(orders_apart cmp (fst ` set es) \<and> distinct (map fst es) \<and> mset es = mset es' \<longrightarrow>
            serializePart cmp (PObj es) = serializePart cmp (PObj es') \<and>
            buildCacheId cmp (PObj es) = buildCacheId cmp (PObj es') \<and>
            buildCacheId cmp (PArr (pre @ PObj es # post)) =
              buildCacheId cmp (PArr (pre @ PObj es' # post))) \<and>
         (orders_apart cmp (fst ` set (without_api_key ps) \<union> snd ` set (without_api_key ps)) \<and>
          mset (without_api_key ps) = mset (without_api_key ps') \<longrightarrow>
            buildCacheId cmp (tmdbCacheKeyParts cmp path (Some ps)) =
            buildCacheId cmp (tmdbCacheKeyParts cmp path (Some ps'))) \<and>
         (without_api_key ps = without_api_key ps' \<longrightarrow>
            buildCacheId cmp (tmdbCacheKeyParts cmp path (Some ps)) =
            buildCacheId cmp (tmdbCacheKeyParts cmp path (Some ps'))) \<and>
         buildCacheId cmp (tmdbCacheKeyParts cmp path (Some (ps @ [(''api_key'', secret)]))) =
           buildCacheId cmp (tmdbCacheKeyParts cmp path (Some ps))"
proof (intro conjI impI)
  assume h: "orders_apart cmp (fst ` set es) \<and> distinct (map fst es) \<and> mset es = mset es'"
  then have s: "serializePart cmp (PObj es) = serializePart cmp (PObj es')"
    using serialize_object_perm by blast
  show "serializePart cmp (PObj es) = serializePart cmp (PObj es')" by (rule s)
  show "buildCacheId cmp (PObj es) = buildCacheId cmp (PObj es')"
    unfolding buildCacheId_def using s by simp
  show "buildCacheId cmp (PArr (pre @ PObj es # post)) =
        buildCacheId cmp (PArr (pre @ PObj es' # post))"
    unfolding buildCacheId_def using s by simp
next
  assume "orders_apart cmp (fst ` set (without_api_key ps) \<union> snd ` set (without_api_key ps)) \<and>
          mset (without_api_key ps) = mset (without_api_key ps')"
  then have "normalizeTmdbParams cmp (Some ps) = normalizeTmdbParams cmp (Some ps')"
    using normalize_params_perm by blast
  then show "buildCacheId cmp (tmdbCacheKeyParts cmp path (Some ps)) =
            buildCacheId cmp (tmdbCacheKeyParts cmp path (Some ps'))"
    by (simp add: tmdbCacheKeyParts_def)
next
  assume "without_api_key ps = without_api_key ps'"
  then have "normalizeTmdbParams cmp (Some ps) = normalizeTmdbParams cmp (Some ps')"
    by (simp add: normalizeTmdbParams_def without_api_key_def)
  then show "buildCacheId cmp (tmdbCacheKeyParts cmp path (Some ps)) =
            buildCacheId cmp (tmdbCacheKeyParts cmp path (Some ps'))"
    by (simp add: tmdbCacheKeyParts_def)
next
  have "normalizeTmdbParams cmp (Some (ps @ [(''api_key'', secret)])) =
        normalizeTmdbParams cmp (Some ps)"
    by (simp add: normalizeTmdbParams_def)
  then show "buildCacheId cmp (tmdbCacheKeyParts cmp path (Some (ps @ [(''api_key'', secret)]))) =
           buildCacheId cmp (tmdbCacheKeyParts cmp path (Some ps))"
    by (simp add: tmdbCacheKeyParts_def)
qed

lemmas key_eval = buildCacheId_def b64_char_def b64_alphabet_def strip_padding_def
  array_sort_def param_compare_def

lemma sample_key_eval:
  "tmdbCacheKeyParts byte_compare (Some '' /3/discover/movie '') (Some sample_params_a) =
     PArr [PStr ''tmdb'', PStr ''/3/discover/movie'', PStr ''language=en-US&page=2'']"
  by (simp add: tmdbCacheKeyParts_def normalizeTmdbParams_def sample_params_a_def trim_def
      is_space_def byte_compare_def key_eval)

lemma b64_eval: "buildCacheId byte_compare (PArr [PStr ''a'', PStr ''b'']) = ''YXx8Yg''"
  by (simp add: key_eval)

theorem cache_key_determinism_witness:
  "orders_apart byte_compare (fst ` set sample_obj_a) \<and>
   distinct (map fst sample_obj_a) \<and> mset sample_obj_a = mset sample_obj_b \<and>
   sample_obj_a \<noteq> sample_obj_b \<and>
   buildCacheId byte_compare (PArr ([PStr ''omdb''] @ PObj sample_obj_a # [])) =
     buildCacheId byte_compare (PArr ([PStr ''omdb''] @ PObj sample_obj_b # [])) \<and>
   sample_params_a \<noteq> sample_params_b \<and>
   mset (without_api_key sample_params_a) = mset (without_api_key sample_params_b) \<and>
   buildCacheId byte_compare
       (tmdbCacheKeyParts byte_compare (Some ''/3/discover/movie'') (Some sample_params_a)) =
     buildCacheId byte_compare
       (tmdbCacheKeyParts byte_compare (Some ''/3/discover/movie'') (Some sample_params_b))"
proof -
  have h1: "orders_apart byte_compare (fst ` set sample_obj_a) \<and>
            distinct (map fst sample_obj_a) \<and> mset sample_obj_a = mset sample_obj_b"
    by (simp add: byte_compare_orders) (simp add: sample_obj_a_def sample_obj_b_def)
  have m: "mset (without_api_key sample_params_a) = mset (without_api_key sample_params_b)"
    by (simp add: sample_params_a_def sample_params_b_def without_api_key_def)
  have h2: "orders_apart byte_compare
              (fst ` set (without_api_key sample_params_a) \<union>
               snd ` set (without_api_key sample_params_a)) \<and>
            mset (without_api_key sample_params_a) = mset (without_api_key sample_params_b)"
    using m by (simp add: byte_compare_orders)
  have d: "sample_obj_a \<noteq> sample_obj_b" "sample_params_a \<noteq> sample_params_b"
    by (simp_all add: sample_obj_a_def sample_obj_b_def sample_params_a_def sample_params_b_def)
  note t = cache_key_determinism[of byte_compare sample_obj_a sample_obj_b "[PStr ''omdb'']" "[]"
      sample_params_a sample_params_b "Some ''/3/discover/movie''" "[]"]
  from t h1 h2 d m show ?thesis by blast
qed

text \<open>
  Two ways in which differently ordered parameter sets derive different keys. A
  \<open>URLSearchParams\<close> handed to the key derivation as a part is serialised in the order of
  its entries. And under a comparator that returns \<open>0\<close> for two distinct, canonically
  equivalent keys, the stable sort leaves them in the order they came, both in an object
  part and in an upstream parameter set.
\<close>

theorem cache_key_order_counterexample:
  "mset [(''a'', ''1''), (''b'', ''2'')] = mset [(''b'', ''2''), (''a'', ''1'')] \<and>
   buildCacheId byte_compare (PArr [PParams [(''a'', ''1''), (''b'', ''2'')]]) \<noteq>
     buildCacheId byte_compare (PArr [PParams [(''b'', ''2''), (''a'', ''1'')]]) \<and>
   e_acute_composed \<noteq> e_acute_decomposed \<and>
   canonical_compare e_acute_composed e_acute_decomposed = 0 \<and>
   buildCacheId canonical_compare
       (PObj [(e_acute_composed, PStr ''1''), (e_acute_decomposed, PStr ''2'')]) \<noteq>
     buildCacheId canonical_compare
       (PObj [(e_acute_decomposed, PStr ''2''), (e_acute_composed, PStr ''1'')]) \<and>
   buildCacheId canonical_compare
       (tmdbCacheKeyParts canonical_compare (Some ''/3/search/movie'')
          (Some [(e_acute_composed, ''1''), (e_acute_decomposed, ''2'')])) \<noteq>
     buildCacheId canonical_compare
       (tmdbCacheKeyParts canonical_compare (Some ''/3/search/movie'')
          (Some [(e_acute_decomposed, ''2''), (e_acute_composed, ''1'')]))"
  by (simp add: key_eval tmdbCacheKeyParts_def normalizeTmdbParams_def trim_def is_space_def
      canonical_compare_def byte_compare_def e_acute_composed_def e_acute_decomposed_def)

text \<open>The in-process map after \<open>rememberInMemory\<close> holds the entry under its key.\<close>

lemma update_fresh: "k \<notin> fst ` set al \<Longrightarrow> AList.update k v al = al @ [(k, v)]"
  by (induction al) auto

lemma update_length_member: "k \<in> fst ` set al \<Longrightarrow> length (AList.update k v al) = length al"
  by (induction al) auto

lemma remember_lookup:
  assumes "\<not> REQUIRE_FIRESTORE env" "docId \<noteq> []" "nonempty_string (p_body pl)" "cache_wf st"
  shows "map_of (inMemoryCache (rememberInMemory env docId pl T st)) docId =
         Some \<lparr>r_status = default_status (p_status pl),
                r_contentType = default_contentType (p_contentType pl),
                r_body = the (p_body pl),
                r_metadata = object_or_null (p_metadata pl),
                fetchedAt = T\<rparr>"
proof -
  define v where "v = \<lparr>r_status = default_status (p_status pl),
                r_contentType = default_contentType (p_contentType pl),
                r_body = the (p_body pl),
                r_metadata = object_or_null (p_metadata pl),
                fetchedAt = T\<rparr>"
  define al where "al = inMemoryCache st"
  have wf: "distinct (map fst al)" "length al \<le> MAX_IN_MEMORY_CACHE_ENTRIES"
    using assms(4) by (simp_all add: cache_wf_def al_def)
  have look: "map_of (AList.update docId v al) docId = Some v"
    by (simp add: update_conv')
  have "map_of (if length (AList.update docId v al) > MAX_IN_MEMORY_CACHE_ENTRIES
                then tl (AList.update docId v al) else AList.update docId v al) docId = Some v"
  proof (cases "docId \<in> fst ` set al")
    case True
    then have "length (AList.update docId v al) = length al" by (rule update_length_member)
    then show ?thesis using wf(2) look by simp
  next
    case False
    note notin = this
    then have u: "AList.update docId v al = al @ [(docId, v)]" by (rule update_fresh)
    show ?thesis
    proof (cases "length (AList.update docId v al) > MAX_IN_MEMORY_CACHE_ENTRIES")
      case True
      then have "al \<noteq> []" unfolding u by (auto simp: MAX_IN_MEMORY_CACHE_ENTRIES_def)
      then have t: "tl (al @ [(docId, v)]) = tl al @ [(docId, v)]" by simp
      have "set (tl al) \<subseteq> set al" by (cases al) auto
      then have "docId \<notin> fst ` set (tl al)" using notin by auto
      then have "map_of (tl al) docId = None" by (simp add: map_of_eq_None_iff)
      then have "map_of (tl al @ [(docId, v)]) docId = Some v" by (simp add: map_add_def)
      then show ?thesis using True unfolding u t by simp
    next
      case False
      then show ?thesis using look by simp
    qed
  qed
  moreover have "rememberInMemory env docId pl T st =
      st\<lparr>inMemoryCache := (if length (AList.update docId v al) > MAX_IN_MEMORY_CACHE_ENTRIES
                then tl (AList.update docId v al) else AList.update docId v al)\<rparr>"
    using assms(1-3) by (simp add: rememberInMemory_def Let_def v_def al_def)
  ultimately show ?thesis unfolding v_def by simp
qed

lemma truthy_object: "truthy_or_null (object_or_null m) = object_or_null m"
  by (auto simp: truthy_or_null_def object_or_null_def is_object_def js_truthy_def
      split: option.splits part.splits)

lemma ttl_before: "\<not> ttl_expired (Some ttl) (T + ttl - 1) T"
  by (simp add: ttl_expired_def)

lemma ttl_after: "0 < ttl \<Longrightarrow> ttl_expired (Some ttl) (T + ttl + 1) T"
  by (simp add: ttl_expired_def)

lemma memory_read_after_write:
  assumes "\<not> REQUIRE_FIRESTORE env" "docId \<noteq> []" "nonempty_string (p_body pl)" "cache_wf st"
    and "0 < ttl"
  shows "fst (readInMemoryCache env docId (Some ttl) (T + ttl - 1)
               (rememberInMemory env docId pl T st)) = Some (stored_response pl)"
    and "fst (readInMemoryCache env docId (Some ttl) (T + ttl + 1)
               (rememberInMemory env docId pl T st)) = None"
  using remember_lookup[OF assms(1-4), of T] assms(1,2) ttl_before[of ttl T] ttl_after[OF assms(5), of T]
  by (simp_all add: readInMemoryCache_def stored_response_def truthy_object)

lemma remember_firestore: "firestore (rememberInMemory env docId pl T st) = firestore st"
  by (simp add: rememberInMemory_def Let_def)

lemma default_contentType_idem:
  "default_contentType (Some (default_contentType c)) = default_contentType c"
  by (simp add: default_contentType_def split: option.splits)

lemma write_memory_state:
  assumes "nonempty_string (p_body pl)" "\<not> db_available env"
  shows "writeCachedResponse env c parts pl T st =
         rememberInMemory env (buildCacheId (localeCompare env) parts)
           \<lparr>p_status = Some (default_status (p_status pl)),
            p_contentType = Some (default_contentType (p_contentType pl)),
            p_body = p_body pl,
            p_metadata = object_or_null (p_metadata pl)\<rparr> T st"
  using assms by (simp add: writeCachedResponse_def Let_def)

lemma object_or_null_idem: "object_or_null (object_or_null m) = object_or_null m"
  by (simp add: object_or_null_def split: option.splits)

lemma stored_response_normalized:
  "stored_response \<lparr>p_status = Some (default_status (p_status pl)),
            p_contentType = Some (default_contentType (p_contentType pl)),
            p_body = p_body pl,
            p_metadata = object_or_null (p_metadata pl)\<rparr> = stored_response pl"
  by (simp add: stored_response_def default_status_def default_contentType_idem
      object_or_null_idem)

lemma write_durable_doc:
  assumes "nonempty_string (p_body pl)" "db_available env" "\<not> db_throws env"
  shows "firestore (writeCachedResponse env c parts pl T st) (c, buildCacheId (localeCompare env) parts) =
         Some \<lparr>d_status = Some (default_status (p_status pl)),
                d_contentType = Some (default_contentType (p_contentType pl)),
                d_body = p_body pl,
                d_metadata = object_or_null (p_metadata pl),
                d_fetchedMs = Some T\<rparr>"
  using assms by (simp add: writeCachedResponse_def Let_def)

lemma durable_read_after_write:
  assumes "nonempty_string (p_body pl)" "db_available env" "\<not> db_throws env"
    and "0 < ttl" "T \<noteq> 0"
  shows "fst (readCachedResponse env c parts (Some ttl) (T + ttl - 1)
               (writeCachedResponse env c parts pl T st)) = Some (stored_response pl)"
    and "fst (readCachedResponse env c parts (Some ttl) (T + ttl + 1)
               (writeCachedResponse env c parts pl T st)) = None"
  using write_durable_doc[OF assms(1-3), of c parts T st] assms ttl_before[of ttl T]
    ttl_after[OF assms(4), of T]
  by (simp_all add: readCachedResponse_def Let_def stored_response_def default_status_def
      default_contentType_idem truthy_object)

text \<open>
  Claim C8. A payload with a non-empty body is written at time \<open>T\<close> under a non-empty
  key, and read back with a positive \<open>ttl\<close>. At \<open>T + ttl - 1\<close> the read returns the
  stored entry and at \<open>T + ttl + 1\<close> it returns \<open>null\<close>; both when the durable store
  serves the read and when the store is absent and the in-process map serves it. Times
  are epoch milliseconds, positive for every clock reading the code can make.
\<close>

theorem ttl_respected:
  assumes "nonempty_string (p_body pl)" and "0 < ttl" and "0 < T"
    and "buildCacheId (localeCompare env) parts \<noteq> []" and "cache_wf st"
    and "(db_available env \<and> \<not> db_throws env) \<or>
         (\<not> db_available env \<and> \<not> REQUIRE_FIRESTORE env)"
  shows "fst (readCachedResponse env c parts (Some ttl) (T + ttl - 1)
               (writeCachedResponse env c parts pl T st)) = Some (stored_response pl) \<and>
         fst (readCachedResponse env c parts (Some ttl) (T + ttl + 1)
               (writeCachedResponse env c parts pl T st)) = None"
proof (cases "db_available env")
  case True
  then have "\<not> db_throws env" using assms(6) by blast
  from durable_read_after_write[OF assms(1) True this assms(2), of T c parts st] assms(3)
  show ?thesis by simp
next
  case False
  then have nr: "\<not> REQUIRE_FIRESTORE env" using assms(6) by blast
  define npl where "npl = \<lparr>p_status = Some (default_status (p_status pl)),
            p_contentType = Some (default_contentType (p_contentType pl)),
            p_body = p_body pl,
            p_metadata = object_or_null (p_metadata pl)\<rparr>"
  have nb: "nonempty_string (p_body npl)" using assms(1) by (simp add: npl_def)
  have w: "writeCachedResponse env c parts pl T st =
           rememberInMemory env (buildCacheId (localeCompare env) parts) npl T st"
    unfolding npl_def using assms(1) False by (rule write_memory_state)
  have r: "readCachedResponse env c parts ttlo now s =
           readInMemoryCache env (buildCacheId (localeCompare env) parts) ttlo now s" for ttlo now s
    using False nr by (simp add: readCachedResponse_def fallback_read_def)
  have sr: "stored_response npl = stored_response pl"
    unfolding npl_def by (rule stored_response_normalized)
  from memory_read_after_write[OF nr assms(4) nb assms(5,2), of T]
  show ?thesis unfolding w r sr by simp
qed

theorem ttl_respected_witness:
  "fst (readCachedResponse memory_only_env ''tmdbCache'' (PArr [PStr ''tmdb'', PStr ''/3/x''])
         (Some 1000) (5000 + 1000 - 1)
         (writeCachedResponse memory_only_env ''tmdbCache'' (PArr [PStr ''tmdb'', PStr ''/3/x''])
            sample_payload 5000 empty_cache))
     = Some \<lparr>r_status = 200, r_contentType = ''application/json'', r_body = ''{}'',
              r_metadata = None\<rparr> \<and>
   fst (readCachedResponse memory_only_env ''tmdbCache'' (PArr [PStr ''tmdb'', PStr ''/3/x''])
         (Some 1000) (5000 + 1000 + 1)
         (writeCachedResponse memory_only_env ''tmdbCache'' (PArr [PStr ''tmdb'', PStr ''/3/x''])
            sample_payload 5000 empty_cache)) = None \<and>
   fst (readCachedResponse durable_env ''tmdbCache'' (PArr [PStr ''tmdb'', PStr ''/3/x''])
         (Some 1000) (5000 + 1000 - 1)
         (writeCachedResponse durable_env ''tmdbCache'' (PArr [PStr ''tmdb'', PStr ''/3/x''])
            sample_payload 5000 empty_cache))
     = Some \<lparr>r_status = 200, r_contentType = ''application/json'', r_body = ''{}'',
              r_metadata = None\<rparr> \<and>
   fst (readCachedResponse durable_env ''tmdbCache'' (PArr [PStr ''tmdb'', PStr ''/3/x''])
         (Some 1000) (5000 + 1000 + 1)
         (writeCachedResponse durable_env ''tmdbCache'' (PArr [PStr ''tmdb'', PStr ''/3/x''])
            sample_payload 5000 empty_cache)) = None"
proof -
  have b: "nonempty_string (p_body sample_payload)"
    by (simp add: nonempty_string_def sample_payload_def)
  have k: "buildCacheId byte_compare (PArr [PStr ''tmdb'', PStr ''/3/x'']) \<noteq> []"
    by (simp add: key_eval)
  have k1: "buildCacheId (localeCompare memory_only_env) (PArr [PStr ''tmdb'', PStr ''/3/x'']) \<noteq> []"
    using k by (simp add: memory_only_env_def)
  have k2: "buildCacheId (localeCompare durable_env) (PArr [PStr ''tmdb'', PStr ''/3/x'']) \<noteq> []"
    using k by (simp add: durable_env_def)
  have wf: "cache_wf empty_cache"
    by (simp add: cache_wf_def empty_cache_def)
  have e1: "(db_available memory_only_env \<and> \<not> db_throws memory_only_env) \<or>
         (\<not> db_available memory_only_env \<and> \<not> REQUIRE_FIRESTORE memory_only_env)"
    by (simp add: memory_only_env_def)
  have e2: "(db_available durable_env \<and> \<not> db_throws durable_env) \<or>
         (\<not> db_available durable_env \<and> \<not> REQUIRE_FIRESTORE durable_env)"
    by (simp add: durable_env_def)
  have sr: "stored_response sample_payload =
     \<lparr>r_status = 200, r_contentType = ''application/json'', r_body = ''{}'', r_metadata = None\<rparr>"
    by (simp add: stored_response_def sample_payload_def default_status_def
        default_contentType_def object_or_null_def)
  have t: "(0::int) < 1000" "(0::int) < 5000" by simp_all
  from ttl_respected[OF b t k1 wf e1, of "''tmdbCache''"]
       ttl_respected[OF b t k2 wf e2, of "''tmdbCache''"]
  show ?thesis unfolding sr by simp
qed

text \<open>
  The bound and the distinct keys assumed of the in-process map hold of the empty cache
  and are kept by every operation.
\<close>

lemma cache_wf_empty: "cache_wf empty_cache"
  by (simp add: cache_wf_def empty_cache_def)

lemma cache_wf_remember:
  assumes "cache_wf st"
  shows "cache_wf (rememberInMemory env docId pl T st)"
proof -
  have d: "distinct (map fst (AList.update docId v (inMemoryCache st)))" for v
    using assms by (simp add: cache_wf_def distinct_update)
  have l: "length (AList.update docId v (inMemoryCache st)) \<le> Suc MAX_IN_MEMORY_CACHE_ENTRIES" for v
  proof (cases "docId \<in> fst ` set (inMemoryCache st)")
    case True
    then show ?thesis using assms update_length_member[OF True, of v]
      by (simp add: cache_wf_def)
  next
    case False
    then show ?thesis using assms update_fresh[OF False, of v] by (simp add: cache_wf_def)
  qed
  have t: "distinct (map fst (tl xs))" if "distinct (map fst xs)" for xs :: "(string \<times> mem_entry) list"
    using that by (cases xs) auto
  show ?thesis
  proof (cases "REQUIRE_FIRESTORE env \<or> docId = [] \<or> \<not> nonempty_string (p_body pl)")
    case True
    then have "rememberInMemory env docId pl T st = st"
      by (auto simp: rememberInMemory_def)
    then show ?thesis using assms by simp
  next
    case False
    define m where "m = AList.update docId
           \<lparr>r_status = default_status (p_status pl),
              r_contentType = default_contentType (p_contentType pl),
              r_body = the (p_body pl),
              r_metadata = object_or_null (p_metadata pl), fetchedAt = T\<rparr>
           (inMemoryCache st)"
    have r: "rememberInMemory env docId pl T st =
             st\<lparr>inMemoryCache := (if length m > MAX_IN_MEMORY_CACHE_ENTRIES then tl m else m)\<rparr>"
      using False by (simp add: rememberInMemory_def Let_def m_def)
    have "distinct (map fst m)" "length m \<le> Suc MAX_IN_MEMORY_CACHE_ENTRIES"
      "distinct (map fst (tl m))"
      using d l t[OF d] by (simp_all add: m_def)
    then show ?thesis unfolding r cache_wf_def by auto
  qed
qed

lemma cache_wf_delete:
  assumes "cache_wf st"
  shows "cache_wf (st\<lparr>inMemoryCache := AList.delete docId (inMemoryCache st)\<rparr>)"
proof -
  have "length (AList.delete docId (inMemoryCache st)) \<le> length (inMemoryCache st)"
    by (simp add: AList.delete_eq)
  then show ?thesis using assms by (simp add: cache_wf_def distinct_delete)
qed

lemma cache_wf_write:
  "cache_wf st \<Longrightarrow> cache_wf (writeCachedResponse env c parts pl T st)"
  using cache_wf_remember[of st env]
  by (auto simp: writeCachedResponse_def Let_def cache_wf_def)

lemma cache_wf_read:
  assumes "cache_wf st"
  shows "cache_wf (snd (readCachedResponse env c parts ttl T st))"
proof -
  have m: "cache_wf (snd (readInMemoryCache env d ttl T st))" for d
    using assms cache_wf_delete[OF assms]
    by (auto simp: readInMemoryCache_def split: option.splits)
  have f: "cache_wf (snd (fallback_read env d ttl T st))" for d
    using assms m by (simp add: fallback_read_def)
  show ?thesis
    using f cache_wf_remember[OF assms] cache_wf_delete[OF assms]
    by (auto simp: readCachedResponse_def Let_def split: option.splits)
qed

section \<open>Critic score enrichment state: proofs\<close>

text \<open>After \<open>setCriticScoreState\<close> the item reports the status that was set.\<close>

lemma status_after_set:
  "status_of nrm (setCriticScoreState nrm movie arg byId) =
     (case a_status arg of Some s \<Rightarrow> s | None \<Rightarrow> Idle)"
  by (simp add: status_of_def setCriticScoreState_def getCriticScoreState_def Let_def)

lemma lookup_after_get:
  "buildCriticLookup (fst (snd (getCriticScoreState nrm movie byId))) = buildCriticLookup movie"
  by (simp add: getCriticScoreState_def buildCriticLookup_def Let_def split: option.splits)

lemma request_trace_char:
  "request_trace nrm movie byId force result =
     (if \<not> force \<and> (status_of nrm (movie, byId) = Loading \<or> status_of nrm (movie, byId) = Loaded)
      then []
      else if buildCriticLookup movie = None then [Error]
      else [Loading, (case result of Responded (Some d) \<Rightarrow> Loaded | _ \<Rightarrow> Error)])"
proof -
  obtain state movie1 byId1 where g: "getCriticScoreState nrm movie byId = (state, movie1, byId1)"
    by (cases "getCriticScoreState nrm movie byId") auto
  have lk: "buildCriticLookup movie1 = buildCriticLookup movie"
    using lookup_after_get[of nrm movie byId] g by simp
  have st: "status_of nrm (movie, byId) = cs_status state"
    using g by (simp add: status_of_def)
  obtain movie2 byId2 where l: "setCriticScoreState nrm movie1
         \<lparr>a_status = Some Loading, a_data = cs_data state, a_error = cs_error state\<rparr> byId1
         = (movie2, byId2)"
    by (cases "setCriticScoreState nrm movie1
         \<lparr>a_status = Some Loading, a_data = cs_data state, a_error = cs_error state\<rparr> byId1") auto
  have s2: "status_of nrm (movie2, byId2) = Loading"
    using status_after_set[of nrm movie1
        "\<lparr>a_status = Some Loading, a_data = cs_data state, a_error = cs_error state\<rparr>" byId1]
    unfolding l by simp
  show ?thesis
    unfolding request_trace_def requestCriticScores_def g st
    by (simp add: lk l s2 status_after_set split: option.splits outcome.splits)
qed

text \<open>
  Claim C7, as the code has it. One request writes no state, or \<open>error\<close> alone (the item
  has neither an IMDb id nor a title to look up), or \<open>loading\<close> followed by \<open>loaded\<close> or
  \<open>error\<close>. A request without \<open>force\<close> leaves an item that is \<open>loaded\<close> or \<open>loading\<close>
  untouched, so a \<open>loaded\<close> item returns to \<open>loading\<close> only under \<open>force\<close>. An item
  that is \<open>idle\<close> or in \<open>error\<close> is taken to \<open>loading\<close> by any request, forced or not,
  when it can be looked up, and straight to \<open>error\<close> when it cannot.
\<close>

theorem enrichment_transitions:
  fixes movie :: "'d cmovie"
  shows "set (request_trace nrm movie byId force result) \<subseteq> {Loading, Loaded, Error} \<and>
     (request_trace nrm movie byId force result = [] \<or>
      request_trace nrm movie byId force result = [Error] \<or>
      request_trace nrm movie byId force result = [Loading, Loaded] \<or>
      request_trace nrm movie byId force result = [Loading, Error]) \<and>
     (status_of nrm (movie, byId) = Loaded \<longrightarrow> Loading \<in> set (request_trace nrm movie byId force result)
        \<longrightarrow> force) \<and>
     (\<not> force \<longrightarrow> status_of nrm (movie, byId) = Loaded \<or> status_of nrm (movie, byId) = Loading
        \<longrightarrow> request_trace nrm movie byId force result = []) \<and>
     (status_of nrm (movie, byId) = Idle \<or> status_of nrm (movie, byId) = Error \<longrightarrow>
        buildCriticLookup movie \<noteq> None \<longrightarrow>
        request_trace nrm movie byId force result =
          [Loading, (case result of Responded (Some d) \<Rightarrow> Loaded | _ \<Rightarrow> Error)]) \<and>
     (status_of nrm (movie, byId) = Idle \<or> status_of nrm (movie, byId) = Error \<longrightarrow>
        buildCriticLookup movie = None \<longrightarrow>
        request_trace nrm movie byId force result = [Error])"
  unfolding request_trace_char
  by (auto split: outcome.splits option.splits)

lemmas critic_eval = status_of_def getCriticScoreState_def buildCriticLookup_def
  getMovieCacheKey_def first_nonempty_def trim_def is_space_def is_digit_def
  titled_movie_def failed_movie_def scored_movie_def untitled_movie_def no_states_def
  keep_scores_def Let_def

theorem enrichment_transitions_witness:
  "status_of keep_scores (scored_movie, no_states) = Loaded \<and>
   request_trace keep_scores scored_movie no_states False (Responded (Some ''90%'')) = [] \<and>
   request_trace keep_scores scored_movie no_states True (Responded (Some ''90%''))
     = [Loading, Loaded] \<and>
   status_of keep_scores (titled_movie, no_states) = Idle \<and>
   buildCriticLookup titled_movie \<noteq> None \<and>
   request_trace keep_scores titled_movie no_states False (Failed ''timeout'') = [Loading, Error] \<and>
   status_of keep_scores (untitled_movie, no_states) = Idle \<and>
   buildCriticLookup untitled_movie = None \<and>
   request_trace keep_scores untitled_movie no_states False (Responded None) = [Error]"
proof -
  have s1: "status_of keep_scores (scored_movie, no_states) = Loaded"
    by (simp add: critic_eval)
  have s2: "status_of keep_scores (titled_movie, no_states) = Idle"
    by (simp add: critic_eval)
  have s3: "status_of keep_scores (untitled_movie, no_states) = Idle"
    by (simp add: critic_eval)
  have l2: "buildCriticLookup titled_movie \<noteq> None"
    by (simp add: critic_eval)
  have l3: "buildCriticLookup untitled_movie = None"
    by (simp add: critic_eval)
  have l1: "buildCriticLookup scored_movie \<noteq> None"
    by (simp add: critic_eval)
  note a = enrichment_transitions[of keep_scores scored_movie no_states False "Responded (Some ''90%'')"]
  note b = enrichment_transitions[of keep_scores titled_movie no_states False "Failed ''timeout''"]
  note c = enrichment_transitions[of keep_scores untitled_movie no_states False "Responded None"]
  have t: "request_trace keep_scores scored_movie no_states True (Responded (Some ''90%''))
     = [Loading, Loaded]"
    using l1 by (simp add: request_trace_char)
  from a b c s1 s2 s3 l2 l3 t show ?thesis by simp
qed

text \<open>
  A request without \<open>force\<close> moves an item from \<open>error\<close> to \<open>loading\<close>, and an idle
  item that cannot be looked up goes to \<open>error\<close> without passing through \<open>loading\<close>.
\<close>

theorem enrichment_error_retry_counterexample:
  "status_of keep_scores (failed_movie, no_states) = Error \<and>
   request_trace keep_scores failed_movie no_states False (Responded (Some ''90%''))
     = [Loading, Loaded] \<and>
   status_of keep_scores (untitled_movie, no_states) = Idle \<and>
   request_trace keep_scores untitled_movie no_states False (Responded (Some ''90%''))
     = [Error]"
proof -
  have "status_of keep_scores (failed_movie, no_states) = Error"
    by (simp add: critic_eval)
  moreover have "buildCriticLookup failed_movie \<noteq> None"
    by (simp add: critic_eval)
  moreover have "status_of keep_scores (untitled_movie, no_states) = Idle"
    by (simp add: critic_eval)
  moreover have "buildCriticLookup untitled_movie = None"
    by (simp add: critic_eval)
  ultimately show ?thesis by (simp add: request_trace_char)
qed


section \<open>Progressive discovery cursor: proofs\<close>

declare evict_oldest.simps [simp del]
declare discover_loop.simps [simp del]

text \<open>A write leaves an entry under its key, with the page it was given.\<close>

lemma evict_keeps_newest:
  "k \<notin> fst ` set xs \<Longrightarrow> map_of (evict_oldest (xs @ [(k, v)])) k = Some v"
proof (induction xs)
  case Nil
  show ?case by (subst evict_oldest.simps) (simp add: TMDB_DISCOVER_HISTORY_LIMIT_def)
next
  case (Cons x xs)
  then have IH: "map_of (evict_oldest (xs @ [(k, v)])) k = Some v" by simp
  have "map_of ((x # xs) @ [(k, v)]) k = Some v"
    using Cons.prems by (auto simp: map_add_def map_of_eq_None_iff[THEN iffD2] split: option.splits)
  then show ?case using IH by (subst evict_oldest.simps) simp
qed

lemma write_entry:
  assumes "key \<noteq> []"
  shows "\<exists>e. map_of (writeTmdbDiscoverState now key st h) key = Some e \<and>
             nextPage e = (if w_nextPage st > 0 then w_nextPage st else 1) \<and>
             exhausted e = w_exhausted st \<and>
             totalPages e = (case w_totalPages st of None \<Rightarrow> None
                             | Some t \<Rightarrow> if t > 0 then Some t else None)"
proof -
  define payload where "payload = normalizeTmdbDiscoverStateEntry now
      (if w_nextPage st > 0 then w_nextPage st else 1)
      (if w_allowedPages st > 0 then w_allowedPages st else MAX_DISCOVER_PAGES)
      (case w_totalPages st of None \<Rightarrow> None | Some t \<Rightarrow> if t > 0 then Some t else None)
      (w_exhausted st) now now"
  have pn: "nextPage payload = (if w_nextPage st > 0 then w_nextPage st else 1)"
    and pe: "exhausted payload = w_exhausted st"
    and pt: "totalPages payload = (case w_totalPages st of None \<Rightarrow> None
                             | Some t \<Rightarrow> if t > 0 then Some t else None)"
    by (auto simp: payload_def normalizeTmdbDiscoverStateEntry_def Let_def split: option.splits)
  have fresh: "map_of (evict_oldest (AList.delete key h @ [(key, payload)])) key = Some payload"
    by (rule evict_keeps_newest) (auto simp: AList.delete_eq)
  have w: "writeTmdbDiscoverState now key st h =
      (case map_of h key of
         Some existing \<Rightarrow>
           if nextPage existing = nextPage payload \<and>
              allowedPages existing = allowedPages payload \<and>
              totalPages existing = totalPages payload \<and>
              exhausted existing = exhausted payload
           then AList.update key
                  (existing\<lparr>updatedAt := updatedAt payload, lastAttempt := lastAttempt payload\<rparr>) h
           else evict_oldest (AList.delete key h @ [(key, payload)])
       | None \<Rightarrow> evict_oldest (AList.delete key h @ [(key, payload)]))"
    unfolding writeTmdbDiscoverState_def Let_def payload_def using assms by simp
  show ?thesis
  proof (cases "map_of h key")
    case None
    then show ?thesis unfolding w using fresh pn pe pt by simp
  next
    case (Some existing)
    show ?thesis
    proof (cases "nextPage existing = nextPage payload \<and>
                   allowedPages existing = allowedPages payload \<and>
                   totalPages existing = totalPages payload \<and>
                   exhausted existing = exhausted payload")
      case True
      then have "writeTmdbDiscoverState now key st h = AList.update key
                  (existing\<lparr>updatedAt := updatedAt payload, lastAttempt := lastAttempt payload\<rparr>) h"
        unfolding w Some by simp
      then show ?thesis using True pn pe pt by (simp add: update_conv')
    next
      case False
      have "writeTmdbDiscoverState now key st h =
                 evict_oldest (AList.delete key h @ [(key, payload)])"
        unfolding w Some option.case by (simp only: False if_False)
      then show ?thesis using fresh pn pe pt by simp
    qed
  qed
qed

text \<open>The paging loop never moves the page backwards.\<close>

lemma loop_body_page:
  "loop_body env s = (how, s') \<Longrightarrow> ls_page s \<le> ls_page s'"
  by (auto simp: loop_body_def Let_def split: option.splits sum.splits if_splits prod.splits)

lemma loop_body_fetched:
  "loop_body env s = (how, s') \<Longrightarrow> how \<noteq> Some Threw \<Longrightarrow>
   ls_page s < ls_page s' \<and> ls_fetched s' \<noteq> []"
  by (auto simp: loop_body_def Let_def split: option.splits sum.splits if_splits prod.splits)

lemma discover_loop_page:
  "discover_loop env s = (how, s') \<Longrightarrow> ls_page s \<le> ls_page s'"
proof (induction env s arbitrary: how s' rule: discover_loop.induct)
  case (1 env s)
  show ?case
  proof (cases "loop_cond s")
    case False
    then show ?thesis using "1.prems" by (subst (asm) discover_loop.simps) simp
  next
    case True
    obtain h1 s1 where b: "loop_body env s = (h1, s1)" by (cases "loop_body env s")
    have p1: "ls_page s \<le> ls_page s1" using b by (rule loop_body_page)
    show ?thesis
    proof (cases h1)
      case None
      then have "discover_loop env s = discover_loop env s1"
        using True b by (subst discover_loop.simps) simp
      then have e: "discover_loop env s1 = (how, s')" using "1.prems" by simp
      have "ls_page s1 \<le> ls_page s'"
        by (rule "1.IH"[OF True b[symmetric] None e])
      then show ?thesis using p1 by simp
    next
      case (Some e)
      then have "discover_loop env s = (Some e, s1)"
        using True b by (subst discover_loop.simps) simp
      then show ?thesis using p1 "1.prems" by simp
    qed
  qed
qed

lemma resume_page_ge: "readTmdbDiscoverState key h = Some e \<Longrightarrow>
  nextPage e \<le> resume_page (readTmdbDiscoverState key h)"
  by (simp add: resume_page_def)

lemma commit_entry:
  assumes "key \<noteq> []"
  shows "\<exists>e. map_of (commitProgress now key s exh re h) key = Some e \<and>
             nextPage e = max 1 (ls_page s)"
proof -
  define pl where "pl = \<lparr>w_nextPage = max 1 (ls_page s),
             w_allowedPages = max (ls_allowedPages s) (max MAX_DISCOVER_PAGES (ls_page s)),
             w_totalPages = (case ls_totalPages s of
                               None \<Rightarrow> None | Some t \<Rightarrow> if t > 0 then Some t else None),
             w_exhausted =
               (case exh of
                  Some b \<Rightarrow> b
                | None \<Rightarrow>
                    re \<and>
                    (case (case ls_totalPages s of
                               None \<Rightarrow> None | Some t \<Rightarrow> if t > 0 then Some t else None)
                     of None \<Rightarrow> True | Some t \<Rightarrow> ls_page s - 1 \<ge> t))\<rparr>"
  have c: "commitProgress now key s exh re h = writeTmdbDiscoverState now key pl h"
    by (simp add: commitProgress_def Let_def pl_def)
  have "w_nextPage pl > 0" by (simp add: pl_def)
  then show ?thesis using write_entry[OF assms, of now pl h] unfolding c
    by (auto simp: pl_def)
qed

text \<open>What a call commits when it ends, if anything.\<close>

lemma after_loop_progress:
  assumes "after_loop env (how, s) = (res, w, fetched)"
  shows "w = None \<or> (\<exists>exh re. exh \<noteq> Some True \<and> w = Some (s, exh, re))"
  using assms unfolding after_loop_def Let_def
  by (auto split: if_splits)

lemma discover_call_cases:
  fixes env :: "'a discover_env"
  assumes "discover_call env existing history = (res, w, fetched)"
  shows "w = None \<or>
         (\<exists>how (s :: 'a loop_state) exh re s0.
            ls_page s0 = resume_page history \<and>
            discover_loop env s0 = (how, s) \<and>
            exh \<noteq> Some True \<and> w = Some (s, exh, re))"
proof -
  define sc where "sc = foldl (add_unseen {}) ({}, []) existing"
  show ?thesis
  proof (cases "prioritize env (snd sc)")
    case (Inl a)
    then show ?thesis using assms by (simp add: discover_call_def Let_def sc_def)
  next
    case (Inr pr)
    define s0 where "s0 = \<lparr>ls_page = resume_page history,
                           ls_allowedPages = resume_allowed history,
                           ls_totalPages = resume_total history,
                           ls_seen = fst sc, ls_collected = snd sc,
                           ls_prioritized = pr, ls_fetched = []\<rparr>"
    have f: "discover_call env existing history =
          (if int (length (applyFeedFilters env pr)) \<ge> minFeedSize env
             then (Returned pr, None, [])
             else if known_exhausted history
                then (best_available env pr (snd sc), None, [])
                else after_loop env (discover_loop env s0))"
      using Inr by (simp add: discover_call_def Let_def sc_def s0_def)
    show ?thesis
    proof (cases "int (length (applyFeedFilters env pr)) \<ge> minFeedSize env \<or>
                  known_exhausted history")
      case True
      then show ?thesis using assms unfolding f by (auto split: if_splits)
    next
      case False
      obtain how s where l: "discover_loop env s0 = (how, s)" by (cases "discover_loop env s0")
      have "after_loop env (how, s) = (res, w, fetched)"
        using assms False unfolding f l by simp
      from after_loop_progress[OF this] show ?thesis
      proof
        assume "w = None"
        then show ?thesis by simp
      next
        assume "\<exists>exh re. exh \<noteq> Some True \<and> w = Some (s, exh, re)"
        then obtain exh re where c: "exh \<noteq> Some True" "w = Some (s, exh, re)" by blast
        have "ls_page s0 = resume_page history" by (simp add: s0_def)
        then show ?thesis using l c by blast
      qed
    qed
  qed
qed

text \<open>
  Whatever happens between the start and the end of a call, the page it writes is not
  below the page it read.
\<close>

lemma call_write_not_below_read:
  assumes "discover_call env existing (Some e) = (res, Some w, fetched)" and "key \<noteq> []"
  shows "\<exists>e'. readTmdbDiscoverState key (complete_call now key (Some w) hc) = Some e' \<and>
              nextPage e \<le> nextPage e'"
proof -
  from discover_call_cases[OF assms(1)]
  obtain how s exh re s0 where
    p0: "ls_page s0 = resume_page (Some e)"
    and l: "discover_loop env s0 = (how, s)"
    and w: "w = (s, exh, re)"
    by auto
  have "resume_page (Some e) \<le> ls_page s"
    using discover_loop_page[OF l] p0 by simp
  moreover have "nextPage e \<le> resume_page (Some e)" by (simp add: resume_page_def)
  ultimately have ge: "nextPage e \<le> ls_page s" by simp
  obtain e' where "map_of (commitProgress now key s exh re hc) key = Some e'"
      "nextPage e' = max 1 (ls_page s)"
    using commit_entry[OF assms(2), of now s exh re hc] by blast
  then show ?thesis using ge assms(2)
    by (auto simp: readTmdbDiscoverState_def complete_call_def w)
qed

lemma cursor_step_monotone:
  assumes "fetchMoviesFromTmdb env key existing h = (res, h', fetched)"
    and "readTmdbDiscoverState key h = Some e"
  shows "\<exists>e'. readTmdbDiscoverState key h' = Some e' \<and> nextPage e \<le> nextPage e'"
proof -
  have k: "key \<noteq> []" using assms(2) by (auto simp: readTmdbDiscoverState_def split: if_splits)
  obtain r w f where d: "discover_call env existing (Some e) = (r, w, f)"
    by (cases "discover_call env existing (Some e)")
  have h': "h' = complete_call (now_ms env) key w h"
    using assms(1) d unfolding fetchMoviesFromTmdb_def assms(2) by simp
  show ?thesis
  proof (cases w)
    case None
    then show ?thesis using h' assms(2) by (simp add: complete_call_def)
  next
    case (Some p)
    from call_write_not_below_read[OF d[unfolded Some] k, of "now_ms env" h]
    show ?thesis unfolding h' Some .
  qed
qed

text \<open>Calls that run one after the other never move the page backwards.\<close>

lemma run_calls_monotone:
  assumes "readTmdbDiscoverState key h = Some e" and "h' \<in> set (run_calls key calls h)"
  shows "\<exists>e'. readTmdbDiscoverState key h' = Some e' \<and> nextPage e \<le> nextPage e'"
  using assms
proof (induction calls arbitrary: h e)
  case Nil
  then show ?case by simp
next
  case (Cons c cs)
  define h1 where "h1 = fst (snd (fetchMoviesFromTmdb (fst c) key (snd c) h))"
  have "fetchMoviesFromTmdb (fst c) key (snd c) h =
        (fst (fetchMoviesFromTmdb (fst c) key (snd c) h), h1,
         snd (snd (fetchMoviesFromTmdb (fst c) key (snd c) h)))"
    by (simp add: h1_def)
  from cursor_step_monotone[OF this Cons.prems(1)]
  obtain e1 where e1: "readTmdbDiscoverState key h1 = Some e1" "nextPage e \<le> nextPage e1"
    by blast
  have "h' = h1 \<or> h' \<in> set (run_calls key cs h1)"
    using Cons.prems(2) by (simp add: h1_def Let_def)
  then show ?case
  proof
    assume "h' = h1"
    then show ?thesis using e1 by simp
  next
    assume "h' \<in> set (run_calls key cs h1)"
    from Cons.IH[OF e1(1) this] obtain e' where
      "readTmdbDiscoverState key h' = Some e'" "nextPage e1 \<le> nextPage e'" by blast
    then show ?thesis using e1(2) by auto
  qed
qed

text \<open>
  Claim C5, as the code has it. Take any run of discovery calls for one signature in
  which each call starts after the one before it has ended, whatever the upstream answers
  and the accumulated movies of each call. Once the history holds an entry for the
  signature, the history after every later call holds one too, and its \<open>nextPage\<close> is at
  least the earlier one. Each call writes the cursor at most once, so these histories are
  the successive writes. And a single call that read the entry when it started writes,
  whatever the history \<open>later\<close> has become when it ends, an entry whose \<open>nextPage\<close> is at
  least the one it read.
\<close>

theorem cursor_nextPage_monotone:
  assumes "readTmdbDiscoverState key h = Some e"
  shows "(\<forall>h' \<in> set (run_calls key calls h).
            \<exists>e'. readTmdbDiscoverState key h' = Some e' \<and> nextPage e \<le> nextPage e') \<and>
         (\<forall>res w fetched later.
            discover_call env existing (readTmdbDiscoverState key h) = (res, Some w, fetched) \<longrightarrow>
            (\<exists>e'. readTmdbDiscoverState key (complete_call now key (Some w) later) = Some e' \<and>
                  nextPage e \<le> nextPage e'))"
proof (intro conjI ballI allI impI)
  fix h' assume "h' \<in> set (run_calls key calls h)"
  then show "\<exists>e'. readTmdbDiscoverState key h' = Some e' \<and> nextPage e \<le> nextPage e'"
    by (rule run_calls_monotone[OF assms])
next
  fix res w fetched later
  assume d: "discover_call env existing (readTmdbDiscoverState key h) = (res, Some w, fetched)"
  have k: "key \<noteq> []" using assms by (auto simp: readTmdbDiscoverState_def split: if_splits)
  show "\<exists>e'. readTmdbDiscoverState key (complete_call now key (Some w) later) = Some e' \<and>
             nextPage e \<le> nextPage e'"
    by (rule call_write_not_below_read[OF d[unfolded assms] k])
qed

text \<open>Steps of the paging loop, and writes to a short history, for the sample runs.\<close>

lemma loop_continue:
  "loop_cond s \<Longrightarrow> loop_body env s = (None, s') \<Longrightarrow> discover_loop env s = discover_loop env s'"
  by (subst discover_loop.simps) simp

lemma loop_leave:
  "loop_cond s \<Longrightarrow> loop_body env s = (Some how, s') \<Longrightarrow> discover_loop env s = (Some how, s')"
  by (subst discover_loop.simps) simp

lemma loop_end: "\<not> loop_cond s \<Longrightarrow> discover_loop env s = (None, s)"
  by (subst discover_loop.simps) simp

lemma evict_short: "length h \<le> 50 \<Longrightarrow> evict_oldest h = h"
  by (subst evict_oldest.simps) (simp add: TMDB_DISCOVER_HISTORY_LIMIT_def)

lemma complete_commit:
  "complete_call now key (Some (s, exh, re)) h = commitProgress now key s exh re h"
  by (simp add: complete_call_def)

lemmas write_eval = complete_commit commitProgress_def writeTmdbDiscoverState_def
  normalizeTmdbDiscoverStateEntry_def evict_short
  MAX_DISCOVER_PAGES_def sample_key_def cursor_at_def

lemmas resume_eval = readTmdbDiscoverState_def known_exhausted_def resume_page_def
  resume_allowed_def resume_total_def MAX_DISCOVER_PAGES_def sample_key_def cursor_at_def

lemmas body_eval = loop_body_def Let_def add_unseen_def MAX_DISCOVER_PAGES_LIMIT_def
  INITIAL_DISCOVER_PAGES_def

lemma prioritize_nothing: "prioritize env [] = Inr []"
  by (simp add: prioritize_def applyPriorityOrdering_def)




lemma drained_loop:
  "discover_loop drained_env
     \<lparr>ls_page = 2, ls_allowedPages = 10, ls_totalPages = Some 2, ls_seen = {},
      ls_collected = [], ls_prioritized = [], ls_fetched = []\<rparr> =
   (Some ReachedEnd,
     \<lparr>ls_page = 3, ls_allowedPages = 10, ls_totalPages = Some 2, ls_seen = {},
      ls_collected = [], ls_prioritized = [], ls_fetched = [2]\<rparr>)"
  by (rule loop_leave) (simp_all add: loop_cond_def body_eval prioritize_nothing drained_env_def)

lemma drained_call:
  "discover_call drained_env [] (Some sample_entry) =
      (Returned [],
       Some (\<lparr>ls_page = 3, ls_allowedPages = 10, ls_totalPages = Some 2, ls_seen = {},
              ls_collected = [], ls_prioritized = [], ls_fetched = [2]\<rparr>, None, True),
       [2])"
proof -
  let ?s = "\<lparr>ls_page = 3, ls_allowedPages = 10, ls_totalPages = Some 2, ls_seen = {},
              ls_collected = [], ls_prioritized = ([] :: unit entry list), ls_fetched = [2]\<rparr>"
  have s0: "\<lparr>ls_page = resume_page (Some sample_entry),
             ls_allowedPages = resume_allowed (Some sample_entry),
             ls_totalPages = resume_total (Some sample_entry),
             ls_seen = {}, ls_collected = [], ls_prioritized = ([] :: unit entry list),
             ls_fetched = []\<rparr> =
      \<lparr>ls_page = 2, ls_allowedPages = 10, ls_totalPages = Some 2, ls_seen = {},
       ls_collected = [], ls_prioritized = [], ls_fetched = []\<rparr>"
    by (simp add: sample_entry_def resume_eval)
  have k: "\<not> known_exhausted (Some sample_entry)"
    by (simp add: sample_entry_def resume_eval)
  have n: "\<not> int (length (applyFeedFilters drained_env [])) \<ge> minFeedSize drained_env"
    by (simp add: drained_env_def)
  have a: "after_loop drained_env (Some ReachedEnd, ?s) = (Returned [], Some (?s, None, True), [2])"
    by (simp add: after_loop_def Let_def best_available_def prioritize_nothing)
  show ?thesis
    by (simp only: discover_call_def Let_def foldl.simps fst_conv snd_conv prioritize_nothing
        sum.case n k if_False s0 drained_loop a)
qed

lemma sample_read: "readTmdbDiscoverState sample_key sample_history = Some sample_entry"
  by (simp add: readTmdbDiscoverState_def sample_history_def sample_key_def)

lemma drained_write:
  "complete_call 1700000000000 sample_key
     (Some (\<lparr>ls_page = 3, ls_allowedPages = 10, ls_totalPages = Some 2, ls_seen = {},
              ls_collected = [], ls_prioritized = ([] :: unit entry list), ls_fetched = [2]\<rparr>,
            None, True)) h = cursor_at 3 (Some 2) True"
  if "h = sample_history \<or> h = []"
  using that by (auto simp: write_eval sample_history_def sample_entry_def)

lemma sample_call:
  "fetchMoviesFromTmdb drained_env sample_key [] sample_history =
     (Returned [], cursor_at 3 (Some 2) True, [2])"
proof -
  have n: "now_ms drained_env = 1700000000000" by (simp add: drained_env_def)
  show ?thesis
    unfolding fetchMoviesFromTmdb_def sample_read drained_call n
    by (simp add: drained_write)
qed

theorem cursor_nextPage_monotone_witness:
  "readTmdbDiscoverState sample_key sample_history = Some sample_entry \<and>
   nextPage sample_entry = 2 \<and>
   run_calls sample_key [(drained_env, [])] sample_history = [cursor_at 3 (Some 2) True] \<and>
   (\<exists>e'. readTmdbDiscoverState sample_key (cursor_at 3 (Some 2) True) = Some e' \<and>
         nextPage sample_entry \<le> nextPage e' \<and> nextPage e' = 3) \<and>
   snd (snd (discover_call drained_env [] (readTmdbDiscoverState sample_key sample_history)))
     = [2] \<and>
   (\<exists>w e'. fst (snd (discover_call drained_env []
                        (readTmdbDiscoverState sample_key sample_history))) = Some w \<and>
      readTmdbDiscoverState sample_key (complete_call 1700000000000 sample_key (Some w) []) =
        Some e' \<and>
      nextPage sample_entry \<le> nextPage e' \<and> nextPage e' = 3)"
proof -
  let ?w = "(\<lparr>ls_page = 3, ls_allowedPages = 10, ls_totalPages = Some 2, ls_seen = {},
              ls_collected = [], ls_prioritized = ([] :: unit entry list), ls_fetched = [2]\<rparr>,
            None :: bool option, True)"
  note r = sample_read
  have c: "run_calls sample_key [(drained_env, [])] sample_history = [cursor_at 3 (Some 2) True]"
    by (simp add: sample_call)
  have m: "cursor_at 3 (Some 2) True \<in> set (run_calls sample_key [(drained_env, [])] sample_history)"
    unfolding c by simp
  have n: "\<And>e'. readTmdbDiscoverState sample_key (cursor_at 3 (Some 2) True) = Some e' \<Longrightarrow>
             nextPage e' = 3"
    by (auto simp: readTmdbDiscoverState_def cursor_at_def sample_key_def)
  have d: "discover_call drained_env [] (readTmdbDiscoverState sample_key sample_history) =
           (Returned [], Some ?w, [2])"
    unfolding r by (rule drained_call)
  have w: "complete_call 1700000000000 sample_key (Some ?w) [] = cursor_at 3 (Some 2) True"
    by (rule drained_write) simp
  note t = cursor_nextPage_monotone[OF r, of "[(drained_env, [])]" drained_env "[]"
      1700000000000]
  from t m have a: "\<exists>e'. readTmdbDiscoverState sample_key (cursor_at 3 (Some 2) True) = Some e' \<and>
         nextPage sample_entry \<le> nextPage e'"
    by blast
  from t d have "\<exists>e'. readTmdbDiscoverState sample_key
                        (complete_call 1700000000000 sample_key (Some ?w) []) = Some e' \<and>
         nextPage sample_entry \<le> nextPage e'"
    by blast
  then have b: "\<exists>e'. readTmdbDiscoverState sample_key
                        (complete_call 1700000000000 sample_key (Some ?w) []) = Some e' \<and>
         nextPage sample_entry \<le> nextPage e' \<and> nextPage e' = 3"
    unfolding w using n by blast
  have s: "nextPage sample_entry = 2" by (simp add: sample_entry_def)
  have f: "fst (snd (discover_call drained_env []
             (readTmdbDiscoverState sample_key sample_history))) = Some ?w"
      "snd (snd (discover_call drained_env []
             (readTmdbDiscoverState sample_key sample_history))) = [2]"
    unfolding d by simp_all
  from a n have a': "\<exists>e'. readTmdbDiscoverState sample_key (cursor_at 3 (Some 2) True) = Some e' \<and>
         nextPage sample_entry \<le> nextPage e' \<and> nextPage e' = 3"
    by blast
  from b f(1) have b': "\<exists>w e'. fst (snd (discover_call drained_env []
                        (readTmdbDiscoverState sample_key sample_history))) = Some w \<and>
      readTmdbDiscoverState sample_key (complete_call 1700000000000 sample_key (Some w) []) =
        Some e' \<and>
      nextPage sample_entry \<le> nextPage e' \<and> nextPage e' = 3"
    by blast
  show ?thesis
    by (intro conjI) (rule r s c a' f(2) b')+
qed

lemma prioritize_steady:
  "prioritize (steady_env n) [Some undated_movie] =
     Inr [Some (undated_movie\<lparr>priority := Some (7/25)\<rparr>)]"
proof -
  have c: "selectPriorityCandidates [Some undated_movie] = [Some undated_movie]"
    by (simp add: select_char ranking_eval sample2_defs)
  have mv: "maxVotesInSet [Some undated_movie] = 0"
    by (simp add: maxVotesInSet_def raw_votes_def ranking_eval sample2_defs)
  have s1: "spec_score (rating01 (Some undated_movie)) (max 0 (raw_votes (Some undated_movie))) 1
              (release_age no_date now (Some undated_movie)) = 7/25" for now
    by (simp add: spec_score_def spec_confidenceAdjustedRating_def
        spec_normalizedLogVoteVolume_def spec_recency_def rating01_def raw_votes_def
        release_age_def ranking_eval sample2_defs)
  have d: "dateParser (steady_env n) = no_date" by (simp add: steady_env_def)
  show ?thesis
    unfolding prioritize_def d
    using apply_spec_char[OF c, of no_date "of_int (now_ms (steady_env n))"]
    by (simp add: mv s1 with_priority_def)
qed

lemma undated_key: "entry_key (Some undated_movie) = Some ''6''"
  by (simp add: entry_key_def undated_movie_def no_movie_def)

lemma steady_fields:
  "fetchDiscoverPage (steady_env n) p = Some ([Some undated_movie], Some 3)"
  "applyFeedFilters (steady_env n) xs = xs"
  "minFeedSize (steady_env n) = n"
  "suppressedIds (steady_env n) = {}"
  "now_ms (steady_env n) = 1700000000000"
  by (simp_all add: steady_env_def)

lemmas steady_eval = body_eval steady_fields undated_key prioritize_steady

lemma steady_call_one:
  "discover_call (steady_env 1) [] None =
     (Returned [Some (undated_movie\<lparr>priority := Some (7/25)\<rparr>)],
      Some (\<lparr>ls_page = 2, ls_allowedPages = 10, ls_totalPages = Some 3, ls_seen = {''6''},
             ls_collected = [Some undated_movie],
             ls_prioritized = [Some (undated_movie\<lparr>priority := Some (7/25)\<rparr>)],
             ls_fetched = [1]\<rparr>, Some False, False),
      [1])"
proof -
  let ?init = "\<lparr>ls_page = 1, ls_allowedPages = 10, ls_totalPages = None, ls_seen = {},
       ls_collected = [], ls_prioritized = ([] :: unit entry list), ls_fetched = []\<rparr>"
  let ?s1 = "\<lparr>ls_page = 2, ls_allowedPages = 10, ls_totalPages = Some 3, ls_seen = {''6''},
             ls_collected = [Some undated_movie],
             ls_prioritized = [Some (undated_movie\<lparr>priority := Some (7/25)\<rparr>)],
             ls_fetched = [1]\<rparr>"
  have s0: "\<lparr>ls_page = resume_page None, ls_allowedPages = resume_allowed None,
             ls_totalPages = resume_total None,
             ls_seen = {}, ls_collected = [], ls_prioritized = ([] :: unit entry list),
             ls_fetched = []\<rparr> = ?init"
    by (simp add: resume_eval)
  have k: "\<not> known_exhausted None" by (simp add: known_exhausted_def)
  have n: "\<not> int (length (applyFeedFilters (steady_env 1) [])) \<ge> minFeedSize (steady_env 1)"
    by (simp add: steady_fields)
  have c0: "loop_cond ?init" by (simp add: loop_cond_def)
  have b0: "loop_body (steady_env 1) ?init = (Some Enough, ?s1)"
    by (simp add: steady_eval)
  have l: "discover_loop (steady_env 1) ?init = (Some Enough, ?s1)"
    by (rule loop_leave[OF c0 b0])
  have a: "after_loop (steady_env 1) (Some Enough, ?s1) =
      (Returned [Some (undated_movie\<lparr>priority := Some (7/25)\<rparr>)],
       Some (?s1, Some False, False), [1])"
    by (simp add: after_loop_def Let_def)
  show ?thesis
    by (simp only: discover_call_def Let_def foldl.simps fst_conv snd_conv prioritize_nothing
        sum.case n k if_False s0 l a)
qed

lemma steady_call_two:
  "discover_call (steady_env 2) [] None =
     (Returned [Some (undated_movie\<lparr>priority := Some (7/25)\<rparr>)],
      Some (\<lparr>ls_page = 4, ls_allowedPages = 10, ls_totalPages = Some 3, ls_seen = {''6''},
             ls_collected = [Some undated_movie],
             ls_prioritized = [Some (undated_movie\<lparr>priority := Some (7/25)\<rparr>)],
             ls_fetched = [1, 2, 3]\<rparr>, None, True),
      [1, 2, 3])"
proof -
  let ?init = "\<lparr>ls_page = 1, ls_allowedPages = 10, ls_totalPages = None, ls_seen = {},
       ls_collected = [], ls_prioritized = ([] :: unit entry list), ls_fetched = []\<rparr>"
  let ?s = "\<lambda>p f. \<lparr>ls_page = p, ls_allowedPages = 10, ls_totalPages = Some 3, ls_seen = {''6''},
             ls_collected = [Some undated_movie],
             ls_prioritized = [Some (undated_movie\<lparr>priority := Some (7/25)\<rparr>)],
             ls_fetched = f\<rparr>"
  have s0: "\<lparr>ls_page = resume_page None, ls_allowedPages = resume_allowed None,
             ls_totalPages = resume_total None,
             ls_seen = {}, ls_collected = [], ls_prioritized = ([] :: unit entry list),
             ls_fetched = []\<rparr> = ?init"
    by (simp add: resume_eval)
  have k: "\<not> known_exhausted None" by (simp add: known_exhausted_def)
  have n: "\<not> int (length (applyFeedFilters (steady_env 2) [])) \<ge> minFeedSize (steady_env 2)"
    by (simp add: steady_fields)
  have c0: "loop_cond ?init" by (simp add: loop_cond_def)
  have b0: "loop_body (steady_env 2) ?init = (None, ?s 2 [1])"
    by (simp add: steady_eval)
  have c1: "loop_cond (?s 2 [1])" by (simp add: loop_cond_def)
  have b1: "loop_body (steady_env 2) (?s 2 [1]) = (None, ?s 3 [1, 2])"
    by (simp add: steady_eval)
  have c2: "loop_cond (?s 3 [1, 2])" by (simp add: loop_cond_def)
  have b2: "loop_body (steady_env 2) (?s 3 [1, 2]) = (None, ?s 4 [1, 2, 3])"
    by (simp add: steady_eval)
  have c3: "\<not> loop_cond (?s 4 [1, 2, 3])" by (simp add: loop_cond_def)
  have l: "discover_loop (steady_env 2) ?init = (None, ?s 4 [1, 2, 3])"
    unfolding loop_continue[OF c0 b0] loop_continue[OF c1 b1] loop_continue[OF c2 b2]
    by (rule loop_end[OF c3])
  have a: "after_loop (steady_env 2) (None, ?s 4 [1, 2, 3]) =
      (Returned [Some (undated_movie\<lparr>priority := Some (7/25)\<rparr>)],
       Some (?s 4 [1, 2, 3], None, True), [1, 2, 3])"
    by (simp add: after_loop_def Let_def best_available_def)
  show ?thesis
    by (simp only: discover_call_def Let_def foldl.simps fst_conv snd_conv prioritize_nothing
        sum.case n k if_False s0 l a)
qed

text \<open>
  Two calls that overlap write a lower page after a higher one. The upstream has three
  pages and lists the same movie on each of them. Call \<open>a\<close> wants one movie and call \<open>b\<close>
  wants two; both start on an empty history and read no cursor. \<open>b\<close> requests the pages
  1, 2 and 3 and writes the next page 4; \<open>a\<close>, whose only request was answered later, then
  writes the next page 2 over it.
\<close>

theorem cursor_overlap_counterexample:
  "readTmdbDiscoverState sample_key [] = None \<and>
   snd (snd (discover_call (steady_env 1) [] None)) = [1] \<and>
   snd (snd (discover_call (steady_env 2) [] None)) = [1, 2, 3] \<and>
   overlapping_calls sample_key (steady_env 1, []) (steady_env 2, []) [] =
     [cursor_at 4 (Some 3) True, cursor_at 2 (Some 3) False] \<and>
   map (map (nextPage \<circ> snd))
       (overlapping_calls sample_key (steady_env 1, []) (steady_env 2, []) []) = [[4], [2]]"
proof -
  have r: "readTmdbDiscoverState sample_key [] = None"
    by (simp add: readTmdbDiscoverState_def)
  have o: "overlapping_calls sample_key (steady_env 1, []) (steady_env 2, []) [] =
     [cursor_at 4 (Some 3) True, cursor_at 2 (Some 3) False]"
    unfolding overlapping_calls_def r Let_def fst_conv snd_conv steady_call_one steady_call_two
    by (simp add: steady_fields write_eval)
  show ?thesis
    unfolding o by (simp add: r steady_call_one steady_call_two cursor_at_def)
qed

text \<open>The movies accumulated before the first request are the first entries by id.\<close>

lemma accumulate_first_by_id:
  "snd (foldl (add_unseen {}) (seen, acc) es) =
     acc @ first_by_id (filter (\<lambda>x. entry_key x \<notin> Some ` seen) es)"
proof (induction es arbitrary: seen acc)
  case Nil
  show ?case by simp
next
  case (Cons e es)
  show ?case
  proof (cases "entry_key e")
    case None
    then show ?thesis using Cons.IH[of seen acc] by (simp add: add_unseen_def)
  next
    case (Some k)
    show ?thesis
    proof (cases "k \<in> seen")
      case True
      then show ?thesis using Some Cons.IH[of seen acc] by (simp add: add_unseen_def)
    next
      case False
      have f: "filter (\<lambda>x. entry_key x \<noteq> Some k) (filter (\<lambda>x. entry_key x \<notin> Some ` seen) es)
             = filter (\<lambda>x. entry_key x \<notin> Some ` insert k seen) es"
        by (induction es) auto
      have n: "entry_key e \<notin> Some ` seen" using Some False by auto
      have r1: "filter (\<lambda>x. entry_key x \<notin> Some ` seen) (e # es) =
                e # filter (\<lambda>x. entry_key x \<notin> Some ` seen) es"
        using n by simp
      have r: "first_by_id (filter (\<lambda>x. entry_key x \<notin> Some ` seen) (e # es)) =
               e # first_by_id (filter (\<lambda>x. entry_key x \<noteq> Some k)
                                 (filter (\<lambda>x. entry_key x \<notin> Some ` seen) es))"
        unfolding r1 using Some by simp
      have "snd (foldl (add_unseen {}) (seen, acc) (e # es)) =
            snd (foldl (add_unseen {}) (insert k seen, acc @ [e]) es)"
        using Some False by (simp add: add_unseen_def)
      also have "\<dots> = (acc @ [e]) @
            first_by_id (filter (\<lambda>x. entry_key x \<notin> Some ` insert k seen) es)"
        by (rule Cons.IH)
      finally show ?thesis unfolding r f by simp
    qed
  qed
qed

lemma collected_first_by_id:
  "snd (foldl (add_unseen {}) ({}, []) existing) = first_by_id existing"
  by (simp add: accumulate_first_by_id)

lemma known_exhausted_after_write:
  assumes "key \<noteq> []" and "w_exhausted st" and "w_totalPages st = Some t" and "0 < t"
    and "t < w_nextPage st"
  shows "known_exhausted (readTmdbDiscoverState key (writeTmdbDiscoverState now key st h))"
proof -
  obtain e where e: "map_of (writeTmdbDiscoverState now key st h) key = Some e"
      "nextPage e = (if w_nextPage st > 0 then w_nextPage st else 1)"
      "exhausted e = w_exhausted st"
      "totalPages e = (case w_totalPages st of None \<Rightarrow> None
                             | Some t \<Rightarrow> if t > 0 then Some t else None)"
    using write_entry[OF assms(1), of now st h] by blast
  have "nextPage e = w_nextPage st" "totalPages e = Some t" "exhausted e"
    using e assms by auto
  then show ?thesis using e(1) assms
    by (simp add: known_exhausted_def readTmdbDiscoverState_def resume_page_def)
qed

lemma skip_when_known_exhausted:
  assumes "known_exhausted history"
  shows "\<exists>p. applyPriorityOrdering (dateParser env) (of_int (now_ms env)) (first_by_id existing)
               = Inr p \<and>
             discover_call env existing history = (Returned p, None, [])"
proof -
  obtain p where p: "applyPriorityOrdering (dateParser env) (of_int (now_ms env))
      (first_by_id existing) = Inr p"
    using apply_total by blast
  then have q: "prioritize env (snd (foldl (add_unseen {}) ({}, []) existing)) = Inr p"
    by (simp add: prioritize_def collected_first_by_id)
  have b: "best_available env p (snd (foldl (add_unseen {}) ({}, []) existing)) = Returned p"
    using q by (simp add: best_available_def)
  have "discover_call env existing history = (Returned p, None, [])"
    using q b assms by (simp add: discover_call_def Let_def)
  then show ?thesis using p by blast
qed

text \<open>
  Claim C6, as the code has it. After a write of the cursor state with
  \<open>exhausted = true\<close>, a known positive total and a next page beyond that total, a
  discovery call for the signature that reads this cursor requests no upstream page and
  commits nothing, so that it leaves the history as it is. It returns the priority
  ordering of the movies accumulated so far, taken once per id.
\<close>

theorem exhausted_cursor_skips_upstream:
  assumes "key \<noteq> []" and "w_exhausted st" and "w_totalPages st = Some t" and "0 < t"
    and "t < w_nextPage st"
  shows "\<exists>p. applyPriorityOrdering (dateParser env) (of_int (now_ms env)) (first_by_id existing)
               = Inr p \<and>
             discover_call env existing
                 (readTmdbDiscoverState key (writeTmdbDiscoverState now key st h))
               = (Returned p, None, []) \<and>
             fetchMoviesFromTmdb env key existing (writeTmdbDiscoverState now key st h)
               = (Returned p, writeTmdbDiscoverState now key st h, [])"
proof -
  from skip_when_known_exhausted[OF known_exhausted_after_write[OF assms], of env existing now h]
  obtain p where p: "applyPriorityOrdering (dateParser env) (of_int (now_ms env))
        (first_by_id existing) = Inr p"
    "discover_call env existing
        (readTmdbDiscoverState key (writeTmdbDiscoverState now key st h)) = (Returned p, None, [])"
    by blast
  have "fetchMoviesFromTmdb env key existing (writeTmdbDiscoverState now key st h)
               = (Returned p, writeTmdbDiscoverState now key st h, [])"
    by (simp add: fetchMoviesFromTmdb_def p(2) complete_call_def)
  then show ?thesis using p by blast
qed

lemma first_by_id_sample:
  "first_by_id [Some undated_movie, None, Some undated_movie] = [Some undated_movie]"
  by (simp add: entry_key_def undated_movie_def no_movie_def)

theorem exhausted_cursor_skips_upstream_witness:
  "sample_key \<noteq> [] \<and> w_exhausted exhausted_payload \<and>
   w_totalPages exhausted_payload = Some 3 \<and> 3 < w_nextPage exhausted_payload \<and>
   writeTmdbDiscoverState 1700000000000 sample_key exhausted_payload [] =
     cursor_at 4 (Some 3) True \<and>
   first_by_id [Some undated_movie, None, Some undated_movie] = [Some undated_movie] \<and>
   fetchMoviesFromTmdb (steady_env 12) sample_key
       [Some undated_movie, None, Some undated_movie] (cursor_at 4 (Some 3) True)
     = (Returned [Some (undated_movie\<lparr>priority := Some (7/25)\<rparr>)],
        cursor_at 4 (Some 3) True, [])"
proof -
  have h: "sample_key \<noteq> []" "w_exhausted exhausted_payload"
      "w_totalPages exhausted_payload = Some 3" "(0::int) < 3" "3 < w_nextPage exhausted_payload"
    by (simp_all add: sample_key_def exhausted_payload_def)
  have w: "writeTmdbDiscoverState 1700000000000 sample_key exhausted_payload [] =
     cursor_at 4 (Some 3) True"
    by (simp add: exhausted_payload_def write_eval)
  have p: "applyPriorityOrdering (dateParser (steady_env 12)) (of_int (now_ms (steady_env 12)))
      (first_by_id [Some undated_movie, None, Some undated_movie]) =
      Inr [Some (undated_movie\<lparr>priority := Some (7/25)\<rparr>)]"
    unfolding first_by_id_sample using prioritize_steady[of 12] by (simp add: prioritize_def)
  from exhausted_cursor_skips_upstream[OF h, of "steady_env 12"
      "[Some undated_movie, None, Some undated_movie]" 1700000000000 "[]"]
  show ?thesis using h first_by_id_sample unfolding w p by auto
qed

lemma endless_loop:
  assumes "p \<le> 10"
  shows "discover_loop endless_env
     \<lparr>ls_page = p, ls_allowedPages = 10, ls_totalPages = None, ls_seen = {},
      ls_collected = [], ls_prioritized = [], ls_fetched = []\<rparr> =
   (Some ReachedEnd,
     \<lparr>ls_page = p + 1, ls_allowedPages = 10, ls_totalPages = None, ls_seen = {},
      ls_collected = [], ls_prioritized = [], ls_fetched = [p]\<rparr>)"
  using assms
  by (intro loop_leave) (simp_all add: loop_cond_def body_eval prioritize_nothing endless_env_def)

lemma endless_after:
  "after_loop endless_env (Some ReachedEnd,
     \<lparr>ls_page = q, ls_allowedPages = 10, ls_totalPages = None, ls_seen = {},
      ls_collected = [], ls_prioritized = [], ls_fetched = [p]\<rparr>) =
   (Returned [],
    Some (\<lparr>ls_page = q, ls_allowedPages = 10, ls_totalPages = None, ls_seen = {},
            ls_collected = [], ls_prioritized = [], ls_fetched = [p]\<rparr>, None, True),
    [p])"
  by (simp add: after_loop_def Let_def best_available_def prioritize_nothing)

lemma endless_call:
  assumes "\<not> known_exhausted history" and "resume_page history = p" and "p \<le> 10"
    and "resume_allowed history = 10" and "resume_total history = None"
  shows "discover_call endless_env [] history =
   (Returned [],
    Some (\<lparr>ls_page = p + 1, ls_allowedPages = 10, ls_totalPages = None, ls_seen = {},
            ls_collected = [], ls_prioritized = [], ls_fetched = [p]\<rparr>, None, True),
    [p])"
proof -
  have n: "\<not> int (length (applyFeedFilters endless_env [])) \<ge> minFeedSize endless_env"
    by (simp add: endless_env_def)
  show ?thesis
    by (simp only: discover_call_def Let_def foldl.simps fst_conv snd_conv prioritize_nothing
        sum.case n assms(1,2,4,5) if_False endless_loop[OF assms(3)] endless_after)
qed

text \<open>
  A write with \<open>exhausted = true\<close> that knows no total does not stop the next call. The
  upstream answers every page with no results and no total; a first call on an empty
  history requests page 1 and writes the cursor as exhausted, with the next page 2; the
  next call requests page 2.
\<close>

theorem exhausted_unknown_total_counterexample:
  "fetchMoviesFromTmdb endless_env sample_key [] [] =
     (Returned [], cursor_at 2 None True, [1]) \<and>
   writeTmdbDiscoverState 1700000000000 sample_key unknown_total_payload [] =
     cursor_at 2 None True \<and>
   w_exhausted unknown_total_payload \<and>
   fetchMoviesFromTmdb endless_env sample_key [] (cursor_at 2 None True) =
     (Returned [], cursor_at 3 None True, [2])"
proof -
  have r1: "readTmdbDiscoverState sample_key [] = None"
    by (simp add: readTmdbDiscoverState_def)
  have c1: "discover_call endless_env [] None =
     (Returned [],
      Some (\<lparr>ls_page = 1 + 1, ls_allowedPages = 10, ls_totalPages = None, ls_seen = {},
            ls_collected = [], ls_prioritized = [], ls_fetched = [1]\<rparr>, None, True),
      [1])"
    by (rule endless_call) (simp_all add: resume_eval)
  have f1: "fetchMoviesFromTmdb endless_env sample_key [] [] =
     (Returned [], cursor_at 2 None True, [1])"
    unfolding fetchMoviesFromTmdb_def r1 c1
    by (simp add: write_eval endless_env_def)
  have r2: "readTmdbDiscoverState sample_key (cursor_at 2 None True) =
      Some \<lparr>nextPage = 2, allowedPages = 10, totalPages = None, exhausted = True,
         updatedAt = 1700000000000, lastAttempt = Some 1700000000000\<rparr>"
    by (simp add: readTmdbDiscoverState_def cursor_at_def sample_key_def)
  have c2: "discover_call endless_env []
      (Some \<lparr>nextPage = 2, allowedPages = 10, totalPages = None, exhausted = True,
         updatedAt = 1700000000000, lastAttempt = Some 1700000000000\<rparr>) =
     (Returned [],
      Some (\<lparr>ls_page = 2 + 1, ls_allowedPages = 10, ls_totalPages = None, ls_seen = {},
            ls_collected = [], ls_prioritized = [], ls_fetched = [2]\<rparr>, None, True),
      [2])"
    by (rule endless_call) (simp_all add: resume_eval)
  have f2: "fetchMoviesFromTmdb endless_env sample_key [] (cursor_at 2 None True) =
     (Returned [], cursor_at 3 None True, [2])"
    unfolding fetchMoviesFromTmdb_def r2 c2
    by (simp add: write_eval endless_env_def)
  have w: "writeTmdbDiscoverState 1700000000000 sample_key unknown_total_payload [] =
     cursor_at 2 None True"
    by (simp add: unknown_total_payload_def write_eval)
  show ?thesis using f1 f2 w by (simp add: unknown_total_payload_def)
qed

text \<open>
  A call that itself writes the entry as exhausted with a known total always puts the
  next page beyond the total, so the call after it requests nothing.
\<close>

lemma commit_exhausted_known:
  assumes "key \<noteq> []" and "exh \<noteq> Some True"
    and "readTmdbDiscoverState key (commitProgress now key s exh re h) = Some e"
    and "exhausted e" and "totalPages e = Some t"
  shows "known_exhausted (readTmdbDiscoverState key (commitProgress now key s exh re h))"
proof -
  define nt where "nt = (case ls_totalPages s of
                               None \<Rightarrow> None | Some t \<Rightarrow> if t > 0 then Some t else None)"
  define pl where "pl = \<lparr>w_nextPage = max 1 (ls_page s),
             w_allowedPages = max (ls_allowedPages s) (max MAX_DISCOVER_PAGES (ls_page s)),
             w_totalPages = nt,
             w_exhausted =
               (case exh of
                  Some b \<Rightarrow> b
                | None \<Rightarrow> re \<and> (case nt of None \<Rightarrow> True | Some t \<Rightarrow> ls_page s - 1 \<ge> t))\<rparr>"
  have c: "commitProgress now key s exh re h = writeTmdbDiscoverState now key pl h"
    unfolding commitProgress_def Let_def pl_def nt_def by (rule refl)
  obtain e' where e': "map_of (writeTmdbDiscoverState now key pl h) key = Some e'"
      "nextPage e' = (if w_nextPage pl > 0 then w_nextPage pl else 1)"
      "exhausted e' = w_exhausted pl"
      "totalPages e' = (case w_totalPages pl of None \<Rightarrow> None
                             | Some t \<Rightarrow> if t > 0 then Some t else None)"
    using write_entry[OF assms(1), of now pl h] by blast
  have ee: "e' = e" using assms(1,3) e'(1) unfolding c by (simp add: readTmdbDiscoverState_def)
  have ntt: "nt = Some t" "0 < t"
    using e'(4) assms(5) unfolding ee by (auto simp: pl_def nt_def split: option.splits if_splits)
  have "w_exhausted pl" using e'(3) assms(4) unfolding ee by simp
  then have "ls_page s - 1 \<ge> t"
    using assms(2) ntt by (cases exh) (auto simp: pl_def)
  moreover have "nextPage e = max 1 (ls_page s)"
    using e'(2) unfolding ee by (simp add: pl_def)
  ultimately have "nextPage e > t" by simp
  then show ?thesis
    using assms(1,3,4,5) ntt(2)
    by (simp add: known_exhausted_def resume_page_def)
qed

lemma exhausted_by_discovery_skips_upstream:
  fixes env1 :: "'a discover_env"
  assumes "fetchMoviesFromTmdb env1 key existing1 h = (res1, h1, fetched1)" and "h1 \<noteq> h"
    and "readTmdbDiscoverState key h1 = Some e" and "exhausted e" and "totalPages e = Some t"
  shows "\<exists>p. fetchMoviesFromTmdb env2 key existing2 h1 = (Returned p, h1, [])"
proof -
  have k: "key \<noteq> []" using assms(3) by (auto simp: readTmdbDiscoverState_def split: if_splits)
  obtain r w f where d: "discover_call env1 existing1 (readTmdbDiscoverState key h) = (r, w, f)"
    by (cases "discover_call env1 existing1 (readTmdbDiscoverState key h)")
  have h1: "h1 = complete_call (now_ms env1) key w h"
    using assms(1) d unfolding fetchMoviesFromTmdb_def by simp
  from discover_call_cases[OF d] assms(2) h1
  obtain s :: "'a loop_state" and exh re where
    c: "exh \<noteq> Some True" "w = Some (s, exh, re)"
    by (auto simp: complete_call_def)
  have hc: "h1 = commitProgress (now_ms env1) key s exh re h"
    unfolding h1 c(2) by (simp add: complete_call_def)
  have "known_exhausted (readTmdbDiscoverState key h1)"
    using commit_exhausted_known[OF k c(1) _ assms(4,5), of "now_ms env1" s re h] assms(3)
    unfolding hc by simp
  from skip_when_known_exhausted[OF this, of env2 existing2]
  obtain p where "discover_call env2 existing2 (readTmdbDiscoverState key h1) = (Returned p, None, [])"
    by blast
  then have "fetchMoviesFromTmdb env2 key existing2 h1 = (Returned p, h1, [])"
    by (simp add: fetchMoviesFromTmdb_def complete_call_def)
  then show ?thesis by blast
qed

end
